theory Spec2Isabelle
  imports Main "HOL-Library.AList" "HOL-Library.Stream" "HOL-Library.Multiset"
    "HOL-Library.Char_ord" "HOL-Library.List_Lexorder" "HOL-Library.Word"
begin

unbundle bit_operations_syntax

section \<open>Secret santa: the assignment engine of secret_santa.py\<close>

subsection \<open>Data model\<close>

text \<open>
  The exceptions the script can raise. The script raises the builtin \<open>Exception\<close> with a
  formatted message; each message is one constructor here, carrying the value the message
  is formatted with. \<open>KeyError\<close>, \<open>IndexError\<close>, \<open>ValueError\<close> and \<open>TypeError\<close> are
  the builtin exceptions of a missing dictionary key (or set element), an index out of
  range, a tuple unpacking of the wrong length and an operation on an object of the wrong
  type.
\<close>

datatype py_error =
    KeyError string
  | IndexError
  | ValueError
  | TypeError
  | BadExclusionFormat string
  | DuplicatePersonId string
  | UnknownExclusionIds "string set"
  | MissingAdministratorEmail
  | MissingAdministratorEmailPassword
  | MissingParticipants
  | AssignmentRestrictions nat

text \<open>
  A participant is the inner dictionary with the keys \<open>name\<close>, \<open>email\<close> and
  \<open>exclusion_ids\<close>. The participant table is a dictionary in insertion order: an
  association list. The configuration is a dictionary whose three keys may each be absent.
\<close>

record participant =
  name :: string
  email :: string
  exclusion_ids :: "string set"

type_synonym participant_data = "(string \<times> participant) list"

record config =
  administrator_email :: "string option"
  administrator_email_password :: "string option"
  participants :: "participant_data option"

text \<open>The assignment dictionary, giver mapped to getter, in insertion order.\<close>

type_synonym assignments = "(string \<times> string) list"

definition MAX_ASSIGNMENT_UUID_LENGTH :: nat where
  "MAX_ASSIGNMENT_UUID_LENGTH = 7"

definition MAX_ASSIGNMENT_ATTEMPTS :: nat where
  "MAX_ASSIGNMENT_ATTEMPTS = 3"

definition PARTICIPANTS_KEY :: string where
  "PARTICIPANTS_KEY = ''participants''"

subsection \<open>The random module\<close>

text \<open>
  The process-wide random state is an explicit stream of naturals; every draw takes the
  head of the stream and returns the rest. \<open>randbelow n\<close> is a number below \<open>n\<close>.
  \<open>shuffle\<close> is the loop of \<open>random.shuffle\<close>: for \<open>i\<close> from \<open>len(x) - 1\<close> down to 1,
  draw \<open>j = randbelow(i + 1)\<close> and exchange \<open>x[i]\<close> and \<open>x[j]\<close>. \<open>choice\<close> is
  \<open>random.choice\<close>: \<open>seq[randbelow(len(seq))]\<close>, an IndexError on an empty sequence.
\<close>

definition randbelow :: "nat \<Rightarrow> nat stream \<Rightarrow> nat \<times> nat stream" where
  "randbelow n s = (shd s mod n, stl s)"

fun shuffle_from :: "nat \<Rightarrow> 'a list \<Rightarrow> nat stream \<Rightarrow> 'a list \<times> nat stream" where
  "shuffle_from 0 x s = (x, s)"
| "shuffle_from (Suc i) x s =
     (case randbelow (Suc i + 1) s of
        (j, s') \<Rightarrow> shuffle_from i (x[Suc i := x ! j, j := x ! Suc i]) s')"

definition shuffle :: "'a list \<Rightarrow> nat stream \<Rightarrow> 'a list \<times> nat stream" where
  "shuffle x s = shuffle_from (length x - 1) x s"

definition choice :: "'a list \<Rightarrow> nat stream \<Rightarrow> py_error + ('a \<times> nat stream)" where
  "choice seq s =
     (if seq = [] then Inl IndexError
      else case randbelow (length seq) s of (i, s') \<Rightarrow> Inr (seq ! i, s'))"

text \<open>
  \<open>tuple(a_set)\<close> lists the elements of a set in an order Python leaves unspecified.
  The model lists them in ascending order; the index into the tuple is drawn at random,
  so every element can be the one chosen whatever the order is.
\<close>

definition tuple_of :: "string set \<Rightarrow> string list" where
  "tuple_of S = sorted_list_of_set S"

subsection \<open>get_assignments\<close>

text \<open>
  The \<open>for\<close> loop of \<open>get_assignments\<close> over the shuffled participants, with the pool
  \<open>remaining_participants\<close> and the dictionary \<open>assignments\<close> as loop state. An early
  \<open>return None\<close> is the result \<open>None\<close>; \<open>set.remove\<close> raises KeyError on a missing
  element, and so does the lookup of a participant that is not in the table.
\<close>

fun assign_loop ::
  "participant_data \<Rightarrow> string list \<Rightarrow> string set \<Rightarrow> assignments \<Rightarrow> nat stream \<Rightarrow>
     py_error + (assignments option \<times> nat stream)" where
  "assign_loop participant_data [] remaining_participants assignments s =
     Inr (Some assignments, s)"
| "assign_loop participant_data (participant # rest) remaining_participants assignments s =
     (case map_of participant_data participant of
        None \<Rightarrow> Inl (KeyError participant)
      | Some p \<Rightarrow>
          let assignment_exclusions = exclusion_ids p;
              available_participants = remaining_participants - assignment_exclusions
          in if available_participants = {} then Inr (None, s)
             else
               (case choice (tuple_of available_participants) s of
                  Inl e \<Rightarrow> Inl e
                | Inr (assignment, s') \<Rightarrow>
                    if assignment \<notin> remaining_participants then Inl (KeyError assignment)
                    else assign_loop participant_data rest
                           (remaining_participants - {assignment})
                           (AList.update participant assignment assignments) s'))"

definition get_assignments ::
  "config \<Rightarrow> nat stream \<Rightarrow> py_error + (assignments option \<times> nat stream)" where
  "get_assignments cfg s =
     (case participants cfg of
        None \<Rightarrow> Inl (KeyError PARTICIPANTS_KEY)
      | Some participant_data \<Rightarrow>
          (case shuffle (map fst participant_data) s of
             (all_participants_randomized, s') \<Rightarrow>
               assign_loop participant_data all_participants_randomized
                 (set (map fst participant_data)) [] s'))"

subsection \<open>The retry loop of the script\<close>

text \<open>
  \<open>not assignments\<close> holds for \<open>None\<close> and for the empty dictionary.
\<close>

fun truthy :: "assignments option \<Rightarrow> bool" where
  "truthy None = False"
| "truthy (Some a) = (a \<noteq> [])"

text \<open>
  The state of the \<open>while\<close> loop: the counter \<open>attempts\<close>, the variable
  \<open>assignments\<close> and the random state. \<open>calls\<close> is not a variable of the script: it
  records what each invocation of \<open>get_assignments\<close> returned, oldest first, so that
  the number of invocations can be stated.
\<close>

record loop_state =
  attempts :: nat
  assignments_var :: "assignments option"
  rng :: "nat stream"
  calls :: "assignments option list"

function retry_loop :: "config \<Rightarrow> loop_state \<Rightarrow> py_error + loop_state" where
  "retry_loop cfg st =
     (if attempts st \<le> MAX_ASSIGNMENT_ATTEMPTS \<and> \<not> truthy (assignments_var st) then
        (case get_assignments cfg (rng st) of
           Inl e \<Rightarrow> Inl e
         | Inr (a, s') \<Rightarrow>
             retry_loop cfg
               \<lparr>attempts = attempts st + 1, assignments_var = a, rng = s',
                calls = calls st @ [a]\<rparr>)
      else Inr st)"
  by pat_completeness auto
termination
  by (relation "measure (\<lambda>(cfg, st). Suc MAX_ASSIGNMENT_ATTEMPTS - attempts st)") auto

definition initial_state :: "nat stream \<Rightarrow> loop_state" where
  "initial_state s = \<lparr>attempts = 0, assignments_var = None, rng = s, calls = []\<rparr>"

text \<open>
  The script from the retry loop to the check after it: the assignments on success, the
  exception naming the number of attempts otherwise.
\<close>

definition find_assignments :: "config \<Rightarrow> nat stream \<Rightarrow> py_error + assignments" where
  "find_assignments cfg s =
     (case retry_loop cfg (initial_state s) of
        Inl e \<Rightarrow> Inl e
      | Inr st \<Rightarrow>
          (case assignments_var st of
             None \<Rightarrow> Inl (AssignmentRestrictions (attempts st))
           | Some a \<Rightarrow>
               if a = [] then Inl (AssignmentRestrictions (attempts st)) else Inr a))"

subsection \<open>Strings\<close>

text \<open>
  A string is a list of characters with code points below 256. \<open>str.strip()\<close> removes
  the leading and trailing characters for which \<open>str.isspace\<close> holds; \<open>str.split(sep)\<close>
  cuts at every occurrence of a one-character separator and yields one piece more than
  there are separators.
\<close>

definition isspace :: "char \<Rightarrow> bool" where
  "isspace c \<longleftrightarrow>
     c \<in> {CHR 0x09, CHR 0x0A, CHR 0x0B, CHR 0x0C, CHR 0x0D, CHR 0x1C, CHR 0x1D, CHR 0x1E,
          CHR 0x1F, CHR 0x20, CHR 0x85, CHR 0xA0}"

definition strip :: "string \<Rightarrow> string" where
  "strip s = rev (dropWhile isspace (rev (dropWhile isspace s)))"

fun split :: "char \<Rightarrow> string \<Rightarrow> string list" where
  "split sep [] = [[]]"
| "split sep (c # cs) =
     (if c = sep then [] # split sep cs
      else (case split sep cs of
              [] \<Rightarrow> [[c]]
            | w # ws \<Rightarrow> (c # w) # ws))"

subsection \<open>parse_config_file\<close>

text \<open>
  The body of the \<open>for\<close> loop for a participant line (line number 2 or more, not
  blank), on the dictionary \<open>config\<close> and the set \<open>all_exclusion_ids\<close>. Unpacking the
  fields of the line into four names raises ValueError when there are not exactly four.
  \<open>assignment_exclusions[1:-1]\<close> drops the first and the last character.
\<close>

definition parse_participant_line ::
  "string \<Rightarrow> config \<Rightarrow> string set \<Rightarrow> py_error + (config \<times> string set)" where
  "parse_participant_line line cfg all_exclusion_ids =
     (case map strip (split CHR '','' line) of
        [person_id, nm, em, assignment_exclusions] \<Rightarrow>
          if assignment_exclusions = [] \<or> hd assignment_exclusions \<noteq> CHR ''(''
             \<or> last assignment_exclusions \<noteq> CHR '')''
          then Inl (BadExclusionFormat assignment_exclusions)
          else
            let ids = set (map strip (split CHR '';'' (butlast (tl assignment_exclusions))));
                ids = (if [] \<in> ids then ids - {[]} else ids);
                ids = insert person_id ids;
                all_exclusion_ids = all_exclusion_ids \<union> ids;
                participant_data = (case participants cfg of None \<Rightarrow> [] | Some pd \<Rightarrow> pd)
            in if person_id \<in> set (map fst participant_data)
               then Inl (DuplicatePersonId person_id)
               else Inr (cfg\<lparr>participants := Some (participant_data @
                           [(person_id, \<lparr>name = nm, email = em, exclusion_ids = ids\<rparr>)])\<rparr>,
                         all_exclusion_ids)
      | _ \<Rightarrow> Inl ValueError)"

text \<open>
  The \<open>for\<close> loop over the enumerated lines of the file. A line is the string the file
  iterator yields, its newline included.
\<close>

fun parse_lines ::
  "nat \<Rightarrow> string list \<Rightarrow> config \<Rightarrow> string set \<Rightarrow> py_error + (config \<times> string set)" where
  "parse_lines line_number [] cfg all_exclusion_ids = Inr (cfg, all_exclusion_ids)"
| "parse_lines line_number (line # rest) cfg all_exclusion_ids =
     (if line_number = 0 then
        parse_lines (Suc line_number) rest
          (cfg\<lparr>administrator_email := Some (strip line)\<rparr>) all_exclusion_ids
      else if line_number = 1 then
        parse_lines (Suc line_number) rest
          (cfg\<lparr>administrator_email_password := Some line\<rparr>) all_exclusion_ids
      else if strip line = [] then
        parse_lines (Suc line_number) rest cfg all_exclusion_ids
      else
        (case parse_participant_line line cfg all_exclusion_ids of
           Inl e \<Rightarrow> Inl e
         | Inr (cfg', all_exclusion_ids') \<Rightarrow>
             parse_lines (Suc line_number) rest cfg' all_exclusion_ids'))"

definition empty_config :: config where
  "empty_config =
     \<lparr>administrator_email = None, administrator_email_password = None, participants = None\<rparr>"

definition parse_config_file :: "string list \<Rightarrow> py_error + config" where
  "parse_config_file cfg_file =
     (case parse_lines 0 cfg_file empty_config {} of
        Inl e \<Rightarrow> Inl e
      | Inr (cfg, all_exclusion_ids) \<Rightarrow>
          (case participants cfg of
             None \<Rightarrow> Inl (KeyError PARTICIPANTS_KEY)
           | Some participant_data \<Rightarrow>
               let all_participants = set (map fst participant_data);
                   unknown_exclusion_ids = all_exclusion_ids - all_participants
               in if unknown_exclusion_ids \<noteq> {} then Inl (UnknownExclusionIds unknown_exclusion_ids)
                  else if administrator_email cfg = None then Inl MissingAdministratorEmail
                  else if administrator_email_password cfg = None
                  then Inl MissingAdministratorEmailPassword
                  else if participants cfg = None then Inl MissingParticipants
                  else Inr cfg))"

subsection \<open>The registry invariant and an example\<close>

text \<open>
  What the participant table satisfies while the file is read: it is never empty once it
  exists, no id occurs twice, and every participant excludes their own id and only ids
  collected in \<open>all_exclusion_ids\<close>.
\<close>

definition registry_inv :: "config \<Rightarrow> string set \<Rightarrow> bool" where
  "registry_inv cfg ex \<longleftrightarrow>
     (\<forall>pd. participants cfg = Some pd \<longrightarrow>
        pd \<noteq> [] \<and> distinct (map fst pd) \<and>
        (\<forall>(k, p) \<in> set pd. k \<in> exclusion_ids p \<and> exclusion_ids p \<subseteq> ex))"

text \<open>
  A configuration file of three participants in the format of the script's docstring,
  and the configuration it is parsed into.
\<close>

definition example_file :: "string list" where
  "example_file =
     [''administrator@gmail.com\<newline>'', ''myGmailGeneratedAppPassword\<newline>'',
      ''a, A, a@e, (b)\<newline>'', ''b, B, b@e, ()\<newline>'', ''c, C, c@e, ()'']"

definition example_participants :: participant_data where
  "example_participants =
     [(''a'', \<lparr>name = ''A'', email = ''a@e'', exclusion_ids = {''a'', ''b''}\<rparr>),
      (''b'', \<lparr>name = ''B'', email = ''b@e'', exclusion_ids = {''b''}\<rparr>),
      (''c'', \<lparr>name = ''C'', email = ''c@e'', exclusion_ids = {''c''}\<rparr>)]"

definition example_config :: config where
  "example_config =
     \<lparr>administrator_email = Some ''administrator@gmail.com'',
      administrator_email_password = Some ''myGmailGeneratedAppPassword\<newline>'',
      participants = Some example_participants\<rparr>"

subsection \<open>The invariant of the retry loop and two infeasible registries\<close>

text \<open>
  At every test of the loop condition: \<open>attempts\<close> counts the invocations made so far,
  there are at most four of them, only the last one can have returned a non-empty
  dictionary, and \<open>assignments\<close> holds what the last one returned.
\<close>

definition loop_inv :: "loop_state \<Rightarrow> bool" where
  "loop_inv st \<longleftrightarrow>
     attempts st = length (calls st) \<and> length (calls st) \<le> Suc MAX_ASSIGNMENT_ATTEMPTS
     \<and> (\<forall>i. Suc i < length (calls st) \<longrightarrow> \<not> truthy (calls st ! i))
     \<and> assignments_var st = (if calls st = [] then None else last (calls st))"

text \<open>
  Two participants who each exclude the other, and a file with a single participant.
\<close>

definition blocked_participants :: participant_data where
  "blocked_participants =
     [(''a'', \<lparr>name = ''A'', email = ''a@e'', exclusion_ids = {''a'', ''b''}\<rparr>),
      (''b'', \<lparr>name = ''B'', email = ''b@e'', exclusion_ids = {''a'', ''b''}\<rparr>)]"

definition blocked_config :: config where
  "blocked_config =
     \<lparr>administrator_email = Some ''administrator@gmail.com'',
      administrator_email_password = Some ''myGmailGeneratedAppPassword\<newline>'',
      participants = Some blocked_participants\<rparr>"

definition lone_file :: "string list" where
  "lone_file =
     [''administrator@gmail.com\<newline>'', ''myGmailGeneratedAppPassword\<newline>'', ''a, A, a@e, ()'']"

definition lone_participant :: participant where
  "lone_participant = \<lparr>name = ''A'', email = ''a@e'', exclusion_ids = {''a''}\<rparr>"

definition lone_config :: config where
  "lone_config =
     \<lparr>administrator_email = Some ''administrator@gmail.com'',
      administrator_email_password = Some ''myGmailGeneratedAppPassword\<newline>'',
      participants = Some [(''a'', lone_participant)]\<rparr>"

subsection \<open>The assignment id\<close>

text \<open>
  \<open>uuid.uuid4()\<close> is a random UUID, a 128-bit integer \<open>u\<close>; its attribute \<open>hex\<close> is
  the integer written as 32 lowercase hexadecimal digits, the most significant first.
  The script keeps the first \<open>MAX_ASSIGNMENT_UUID_LENGTH\<close> characters.
\<close>

definition hex_digit :: "nat \<Rightarrow> char" where
  "hex_digit n = ''0123456789abcdef'' ! n"

definition hex :: "128 word \<Rightarrow> string" where
  "hex u = map (\<lambda>i. hex_digit (unat (drop_bit (4 * i) u AND 15))) (rev [0..<32])"

definition assignment_uuid :: "128 word \<Rightarrow> string" where
  "assignment_uuid u = take MAX_ASSIGNMENT_UUID_LENGTH (hex u)"

text \<open>
  Reading a string of hexadecimal digits as a number in base 16: the value of a digit is
  its position among \<open>0123456789abcdef\<close>.
\<close>

definition digit_value :: "char \<Rightarrow> nat" where
  "digit_value c = length (takeWhile (\<lambda>d. d \<noteq> c) ''0123456789abcdef'')"

definition hex_value :: "string \<Rightarrow> nat" where
  "hex_value cs = foldl (\<lambda>acc c. 16 * acc + digit_value c) 0 cs"

text \<open>A file with the two administrator lines and a blank line, and no participant.\<close>

definition admin_only_file :: "string list" where
  "admin_only_file = [''administrator@gmail.com\<newline>'', ''myGmailGeneratedAppPassword\<newline>'', '' \<newline>'']"

subsection \<open>The single attempt as the specification describes it\<close>






section \<open>get_assignments on a store of mutable objects\<close>

text \<open>
  Dictionaries, sets and lists are mutable objects that variables and other objects refer
  to. The store is the list of all objects, an address is an index into it, and a new
  object is put at the end. A value is a string, a reference to an object, or \<open>None\<close>.
\<close>

datatype py_value = Str string | Ref nat | NoneValue

datatype py_object =
    DictObject "(string \<times> py_value) list"
  | SetObject "string set"
  | ListObject "string list"

type_synonym heap = "py_object list"

definition alloc :: "heap \<Rightarrow> py_object \<Rightarrow> nat \<times> heap" where
  "alloc h ob = (length h, h @ [ob])"

definition deref :: "heap \<Rightarrow> nat \<Rightarrow> py_object option" where
  "deref h a = (if a < length h then Some (h ! a) else None)"

text \<open>
  \<open>d[k]\<close> on a dictionary, \<open>d.keys()\<close>, and the value of a set object; each raises
  TypeError on an object of another kind.
\<close>

definition getitem :: "heap \<Rightarrow> py_value \<Rightarrow> string \<Rightarrow> py_error + py_value" where
  "getitem h d k =
     (case d of
        Ref a \<Rightarrow>
          (case deref h a of
             Some (DictObject kvs) \<Rightarrow>
               (case map_of kvs k of None \<Rightarrow> Inl (KeyError k) | Some v \<Rightarrow> Inr v)
           | _ \<Rightarrow> Inl TypeError)
      | _ \<Rightarrow> Inl TypeError)"

definition dict_keys :: "heap \<Rightarrow> py_value \<Rightarrow> py_error + string list" where
  "dict_keys h d =
     (case d of
        Ref a \<Rightarrow>
          (case deref h a of
             Some (DictObject kvs) \<Rightarrow> Inr (map fst kvs)
           | _ \<Rightarrow> Inl TypeError)
      | _ \<Rightarrow> Inl TypeError)"

definition set_value :: "heap \<Rightarrow> py_value \<Rightarrow> py_error + string set" where
  "set_value h v =
     (case v of
        Ref a \<Rightarrow> (case deref h a of Some (SetObject S) \<Rightarrow> Inr S | _ \<Rightarrow> Inl TypeError)
      | _ \<Rightarrow> Inl TypeError)"

definition PARTICIPANT_NAME_KEY :: string where
  "PARTICIPANT_NAME_KEY = ''name''"

definition PARTICIPANT_EMAIL_KEY :: string where
  "PARTICIPANT_EMAIL_KEY = ''email''"

definition PARTICIPANT_ASSIGNMENT_EXCLUSIONS_KEY :: string where
  "PARTICIPANT_ASSIGNMENT_EXCLUSIONS_KEY = ''exclusion_ids''"

definition ADMINISTRATOR_EMAIL_KEY :: string where
  "ADMINISTRATOR_EMAIL_KEY = ''administrator_email''"

definition ADMINISTRATOR_EMAIL_PASSWORD_KEY :: string where
  "ADMINISTRATOR_EMAIL_PASSWORD_KEY = ''administrator_email_password''"

text \<open>
  The loop of \<open>get_assignments\<close> on the store: \<open>remaining_participants\<close> and
  \<open>assignments\<close> are the addresses of the pool and of the result dictionary, both
  changed in place by \<open>remove\<close> and by the item assignment; \<open>assignment_exclusions\<close>
  refers to the set object inside the registry; the set difference is a new object. The
  loop runs over the elements of the shuffled list, which its body does not change; the
  tuple handed to \<open>random.choice\<close> is immutable and is kept as a value.
\<close>

fun assign_loop_heap ::
  "heap \<Rightarrow> py_value \<Rightarrow> string list \<Rightarrow> nat \<Rightarrow> nat \<Rightarrow> nat stream \<Rightarrow>
     py_error + (py_value \<times> heap \<times> nat stream)" where
  "assign_loop_heap h participant_data [] remaining_participants assignments s =
     Inr (Ref assignments, h, s)"
| "assign_loop_heap h participant_data (participant # rest) remaining_participants assignments s =
     (case getitem h participant_data participant of
        Inl e \<Rightarrow> Inl e
      | Inr p \<Rightarrow>
     (case getitem h p PARTICIPANT_ASSIGNMENT_EXCLUSIONS_KEY of
        Inl e \<Rightarrow> Inl e
      | Inr assignment_exclusions \<Rightarrow>
     (case set_value h (Ref remaining_participants) of
        Inl e \<Rightarrow> Inl e
      | Inr remaining \<Rightarrow>
     (case set_value h assignment_exclusions of
        Inl e \<Rightarrow> Inl e
      | Inr exclusions \<Rightarrow>
     (case alloc h (SetObject (remaining - exclusions)) of
        (available_participants, h1) \<Rightarrow>
          if remaining - exclusions = {} then Inr (NoneValue, h1, s)
          else
            (case choice (tuple_of (remaining - exclusions)) s of
               Inl e \<Rightarrow> Inl e
             | Inr (assignment, s') \<Rightarrow>
                 if assignment \<notin> remaining then Inl (KeyError assignment)
                 else
                   let h2 = h1[remaining_participants := SetObject (remaining - {assignment})]
                   in (case deref h2 assignments of
                         Some (DictObject kvs) \<Rightarrow>
                           assign_loop_heap
                             (h2[assignments :=
                                   DictObject (AList.update participant (Str assignment) kvs)])
                             participant_data rest remaining_participants assignments s'
                       | _ \<Rightarrow> Inl TypeError)))))))"

text \<open>
  \<open>get_assignments\<close> on the store: \<open>list(...)\<close>, \<open>set(...)\<close> and \<open>{}\<close> make new
  objects, \<open>random.shuffle\<close> changes the new list in place. The result is \<open>None\<close> or the
  reference to the dictionary \<open>assignments\<close>.
\<close>

definition get_assignments_heap ::
  "heap \<Rightarrow> py_value \<Rightarrow> nat stream \<Rightarrow> py_error + (py_value \<times> heap \<times> nat stream)" where
  "get_assignments_heap h cfg s =
     (case getitem h cfg PARTICIPANTS_KEY of
        Inl e \<Rightarrow> Inl e
      | Inr participant_data \<Rightarrow>
     (case dict_keys h participant_data of
        Inl e \<Rightarrow> Inl e
      | Inr keys \<Rightarrow>
     (case alloc h (ListObject keys) of
        (all_participants_randomized, h1) \<Rightarrow>
     (case shuffle keys s of
        (shuffled, s') \<Rightarrow>
          let h2 = h1[all_participants_randomized := ListObject shuffled]
          in
     (case alloc h2 (SetObject (set keys)) of
        (remaining_participants, h3) \<Rightarrow>
     (case alloc h3 (DictObject []) of
        (assignments, h4) \<Rightarrow>
          assign_loop_heap h4 participant_data shuffled remaining_participants assignments s'))))))"

text \<open>
  The configuration that a store holds at a reference: the participant table with the
  id, name, email and exclusion set of every participant, read through the references.
\<close>

definition read_str :: "py_value option \<Rightarrow> string option" where
  "read_str v = (case v of Some (Str x) \<Rightarrow> Some x | _ \<Rightarrow> None)"

definition read_participant :: "heap \<Rightarrow> py_value \<Rightarrow> participant option" where
  "read_participant h v =
     (case v of
        Ref a \<Rightarrow>
          (case deref h a of
             Some (DictObject kvs) \<Rightarrow>
               (case (read_str (map_of kvs PARTICIPANT_NAME_KEY),
                      read_str (map_of kvs PARTICIPANT_EMAIL_KEY),
                      map_of kvs PARTICIPANT_ASSIGNMENT_EXCLUSIONS_KEY) of
                  (Some n, Some e, Some (Ref x)) \<Rightarrow>
                    (case deref h x of
                       Some (SetObject ex) \<Rightarrow> Some \<lparr>name = n, email = e, exclusion_ids = ex\<rparr>
                     | _ \<Rightarrow> None)
                | _ \<Rightarrow> None)
           | _ \<Rightarrow> None)
      | _ \<Rightarrow> None)"

fun read_entries :: "heap \<Rightarrow> (string \<times> py_value) list \<Rightarrow> participant_data option" where
  "read_entries h [] = Some []"
| "read_entries h ((k, v) # kvs) =
     (case read_participant h v of
        None \<Rightarrow> None
      | Some p \<Rightarrow> map_option ((#) (k, p)) (read_entries h kvs))"

definition read_participants :: "heap \<Rightarrow> py_value \<Rightarrow> participant_data option" where
  "read_participants h v =
     (case v of
        Ref a \<Rightarrow>
          (case deref h a of
             Some (DictObject kvs) \<Rightarrow> read_entries h kvs
           | _ \<Rightarrow> None)
      | _ \<Rightarrow> None)"

definition read_config :: "heap \<Rightarrow> py_value \<Rightarrow> config option" where
  "read_config h v =
     (case v of
        Ref a \<Rightarrow>
          (case deref h a of
             Some (DictObject kvs) \<Rightarrow>
               (case map_of kvs PARTICIPANTS_KEY of
                  None \<Rightarrow>
                    Some \<lparr>administrator_email = read_str (map_of kvs ADMINISTRATOR_EMAIL_KEY),
                          administrator_email_password =
                            read_str (map_of kvs ADMINISTRATOR_EMAIL_PASSWORD_KEY),
                          participants = None\<rparr>
                | Some pv \<Rightarrow>
                    (case read_participants h pv of
                       None \<Rightarrow> None
                     | Some pd \<Rightarrow>
                         Some \<lparr>administrator_email = read_str (map_of kvs ADMINISTRATOR_EMAIL_KEY),
                               administrator_email_password =
                                 read_str (map_of kvs ADMINISTRATOR_EMAIL_PASSWORD_KEY),
                               participants = Some pd\<rparr>))
           | _ \<Rightarrow> None)
      | _ \<Rightarrow> None)"

text \<open>
  The dictionary object of an assignment, and when a result on the store is the result
  of \<open>get_assignments\<close> on the configuration read from it.
\<close>

definition encode :: "assignments \<Rightarrow> (string \<times> py_value) list" where
  "encode a = map (\<lambda>(g, r). (g, Str r)) a"

definition result_matches ::
  "py_error + (assignments option \<times> nat stream) \<Rightarrow>
   py_error + (py_value \<times> heap \<times> nat stream) \<Rightarrow> bool" where
  "result_matches pure hp \<longleftrightarrow>
     (case pure of
        Inl e \<Rightarrow> hp = Inl e
      | Inr (None, s') \<Rightarrow> (\<exists>h'. hp = Inr (NoneValue, h', s'))
      | Inr (Some a, s') \<Rightarrow>
          (\<exists>h' r. hp = Inr (Ref r, h', s') \<and> deref h' r = Some (DictObject (encode a))))"

text \<open>A store holding the example configuration at address 7.\<close>

definition example_heap :: heap where
  "example_heap =
     [SetObject {''a'', ''b''},
      DictObject [(''name'', Str ''A''), (''email'', Str ''a@e''), (''exclusion_ids'', Ref 0)],
      SetObject {''b''},
      DictObject [(''name'', Str ''B''), (''email'', Str ''b@e''), (''exclusion_ids'', Ref 2)],
      SetObject {''c''},
      DictObject [(''name'', Str ''C''), (''email'', Str ''c@e''), (''exclusion_ids'', Ref 4)],
      DictObject [(''a'', Ref 1), (''b'', Ref 3), (''c'', Ref 5)],
      DictObject [(''administrator_email'', Str ''administrator@gmail.com''),
                  (''administrator_email_password'', Str ''myGmailGeneratedAppPassword\<newline>''),
                  (''participants'', Ref 6)]]"

section \<open>Properties\<close>

subsection \<open>Shuffling and choosing\<close>

lemma randbelow_less: "0 < n \<Longrightarrow> randbelow n s = (j, s') \<Longrightarrow> j < n"
  by (auto simp: randbelow_def)

lemma shuffle_from_mset: "i < length x \<or> i = 0 \<Longrightarrow> mset (fst (shuffle_from i x s)) = mset x"
proof (induction i arbitrary: x s)
  case 0
  then show ?case by simp
next
  case (Suc i)
  obtain j s' where r: "randbelow (Suc i + 1) s = (j, s')" by (cases "randbelow (Suc i + 1) s")
  from Suc.prems have len: "Suc i < length x" by simp
  from r have "j < Suc i + 1" using randbelow_less[of "Suc i + 1" s j s'] by simp
  with len have j: "j < length x" by simp
  have "mset (x[Suc i := x ! j, j := x ! Suc i]) = mset x"
    using len j by (simp add: mset_swap)
  moreover have "mset (fst (shuffle_from i (x[Suc i := x ! j, j := x ! Suc i]) s'))
      = mset (x[Suc i := x ! j, j := x ! Suc i])"
    using len by (intro Suc.IH) simp
  ultimately show ?case using r by simp
qed

lemma shuffle_mset: "shuffle x s = (y, s') \<Longrightarrow> mset y = mset x"
  using shuffle_from_mset[of "length x - 1" x s] by (cases x) (auto simp: shuffle_def)

lemma update_fresh: "k \<notin> fst ` set al \<Longrightarrow> AList.update k v al = al @ [(k, v)]"
  by (induction al) auto

lemma set_tuple_of: "finite S \<Longrightarrow> set (tuple_of S) = S"
  by (simp add: tuple_of_def)

lemma choice_mem: "choice xs s = Inr (x, s') \<Longrightarrow> x \<in> set xs"
  by (auto simp: choice_def randbelow_def split: if_splits)

subsection \<open>The invariant of the assignment loop\<close>

lemma assign_loop_inv:
  assumes "assign_loop pd todo rem asg s = Inr (Some a, s')"
    and "finite rem" and "distinct todo" and "set todo \<inter> fst ` set asg = {}"
    and "distinct (map fst asg)" and "distinct (map snd asg)" and "snd ` set asg \<inter> rem = {}"
  shows "distinct (map fst a) \<and> distinct (map snd a)
     \<and> fst ` set a = fst ` set asg \<union> set todo
     \<and> snd ` set a \<subseteq> snd ` set asg \<union> rem
     \<and> length a = length asg + length todo"
  using assms
proof (induction todo arbitrary: rem asg s)
  case Nil
  then show ?case by auto
next
  case (Cons g todo)
  from Cons.prems(1) obtain p where p: "map_of pd g = Some p"
    by (auto split: option.splits)
  let ?av = "rem - exclusion_ids p"
  from Cons.prems(1) p have ne: "?av \<noteq> {}"
    by (auto simp: Let_def split: if_splits)
  from Cons.prems(1) p ne obtain r s1 where
    ch: "choice (tuple_of ?av) s = Inr (r, s1)" and rin: "r \<in> rem"
    and rec: "assign_loop pd todo (rem - {r}) (AList.update g r asg) s1 = Inr (Some a, s')"
    by (auto simp: Let_def split: if_splits sum.splits)
  from Cons.prems(4) have gfresh: "g \<notin> fst ` set asg" by auto
  then have upd: "AList.update g r asg = asg @ [(g, r)]" by (rule update_fresh)
  from Cons.prems(7) rin have rfresh: "r \<notin> snd ` set asg" by auto
  have "distinct (map fst a) \<and> distinct (map snd a)
     \<and> fst ` set a = fst ` set (AList.update g r asg) \<union> set todo
     \<and> snd ` set a \<subseteq> snd ` set (AList.update g r asg) \<union> (rem - {r})
     \<and> length a = length (AList.update g r asg) + length todo"
  proof (rule Cons.IH[OF rec])
    show "finite (rem - {r})" using Cons.prems(2) by simp
    show "distinct todo" using Cons.prems(3) by simp
    show "set todo \<inter> fst ` set (AList.update g r asg) = {}"
      using Cons.prems(3,4) by (auto simp: upd)
    show "distinct (map fst (AList.update g r asg))"
      using Cons.prems(5) gfresh by (simp add: upd)
    show "distinct (map snd (AList.update g r asg))"
      using Cons.prems(6) rfresh by (simp add: upd)
    show "snd ` set (AList.update g r asg) \<inter> (rem - {r}) = {}"
      using Cons.prems(7) by (auto simp: upd)
  qed
  then show ?case using rin by (auto simp: upd)
qed

lemma assign_loop_excl:
  assumes "assign_loop pd todo rem asg s = Inr (Some a, s')" and "finite rem"
    and "(g, r) \<in> set a"
  shows "(g, r) \<in> set asg \<or> (\<exists>p. map_of pd g = Some p \<and> r \<notin> exclusion_ids p)"
  using assms
proof (induction todo arbitrary: rem asg s)
  case Nil
  then show ?case by auto
next
  case (Cons h todo)
  from Cons.prems(1) obtain p where p: "map_of pd h = Some p"
    by (auto split: option.splits)
  let ?av = "rem - exclusion_ids p"
  from Cons.prems(1) p have ne: "?av \<noteq> {}"
    by (auto simp: Let_def split: if_splits)
  from Cons.prems(1) p ne obtain t s1 where
    ch: "choice (tuple_of ?av) s = Inr (t, s1)"
    and rec: "assign_loop pd todo (rem - {t}) (AList.update h t asg) s1 = Inr (Some a, s')"
    by (auto simp: Let_def split: if_splits sum.splits)
  have "finite ?av" using Cons.prems(2) by simp
  with choice_mem[OF ch] have tav: "t \<in> ?av" by (simp add: set_tuple_of)
  have "(g, r) \<in> set (AList.update h t asg) \<or> (\<exists>p. map_of pd g = Some p \<and> r \<notin> exclusion_ids p)"
    using Cons.IH[OF rec _ Cons.prems(3)] Cons.prems(2) by simp
  moreover have "set (AList.update h t asg) \<subseteq> insert (h, t) (set asg)"
    by (induction asg) auto
  ultimately show ?case using p tav by auto
qed

subsection \<open>What parse_config_file establishes\<close>

lemma parse_participant_line_inv:
  assumes "parse_participant_line line cfg ex = Inr (cfg', ex')" and "registry_inv cfg ex"
  shows "registry_inv cfg' ex'"
proof -
  from assms(1) obtain person_id nm em ae where
    f: "map strip (split CHR '','' line) = [person_id, nm, em, ae]"
    unfolding parse_participant_line_def by (auto split: list.splits)
  define ids0 where "ids0 = set (map strip (split CHR '';'' (butlast (tl ae))))"
  define ids where "ids = insert person_id (if [] \<in> ids0 then ids0 - {[]} else ids0)"
  define pd where "pd = (case participants cfg of None \<Rightarrow> [] | Some pd \<Rightarrow> pd)"
  from assms(1) f have nd: "person_id \<notin> set (map fst pd)"
    and c: "cfg' = cfg\<lparr>participants := Some (pd @
                [(person_id, \<lparr>name = nm, email = em, exclusion_ids = ids\<rparr>)])\<rparr>"
    and e: "ex' = ex \<union> ids"
    unfolding parse_participant_line_def ids0_def ids_def pd_def
    by (simp_all add: Let_def split: if_splits)
  have pin: "person_id \<in> ids" by (simp add: ids_def)
  show ?thesis
  proof (cases "participants cfg")
    case None
    with pin show ?thesis by (auto simp: registry_inv_def c e pd_def)
  next
    case (Some pd0)
    with assms(2) nd pin show ?thesis
      by (fastforce simp: registry_inv_def c e pd_def)
  qed
qed

lemma parse_lines_inv:
  "parse_lines n ls cfg ex = Inr (cfg', ex') \<Longrightarrow> registry_inv cfg ex \<Longrightarrow> registry_inv cfg' ex'"
proof (induction ls arbitrary: n cfg ex)
  case Nil
  then show ?case by simp
next
  case (Cons line rest)
  show ?case
  proof (cases "n = 0")
    case True
    have "registry_inv (cfg\<lparr>administrator_email := Some (strip line)\<rparr>) ex"
      using Cons.prems(2) by (simp add: registry_inv_def)
    with Cons.prems(1) True Cons.IH show ?thesis by simp
  next
    case n0: False
    show ?thesis
    proof (cases "n = 1")
      case True
      have "registry_inv (cfg\<lparr>administrator_email_password := Some line\<rparr>) ex"
        using Cons.prems(2) by (simp add: registry_inv_def)
      with Cons.prems(1) True Cons.IH show ?thesis by simp
    next
      case n1: False
      show ?thesis
      proof (cases "strip line = []")
        case True
        with Cons n0 n1 show ?thesis by simp
      next
        case ne: False
        from Cons.prems(1) n0 n1 ne obtain c1 e1 where
          pl: "parse_participant_line line cfg ex = Inr (c1, e1)"
          and rec: "parse_lines (Suc n) rest c1 e1 = Inr (cfg', ex')"
          by (auto split: sum.splits)
        from parse_participant_line_inv[OF pl Cons.prems(2)] Cons.IH[OF rec]
        show ?thesis by blast
      qed
    qed
  qed
qed

lemma parse_config_file_registry:
  assumes "parse_config_file cfg_file = Inr cfg"
  shows "\<exists>pd. participants cfg = Some pd \<and> pd \<noteq> [] \<and> distinct (map fst pd) \<and>
     (\<forall>(k, p) \<in> set pd. k \<in> exclusion_ids p \<and> exclusion_ids p \<subseteq> set (map fst pd))"
proof -
  from assms obtain ex where pl: "parse_lines 0 cfg_file empty_config {} = Inr (cfg, ex)"
    unfolding parse_config_file_def by (auto simp: Let_def split: sum.splits option.splits if_splits)
  have "registry_inv empty_config {}" by (simp add: registry_inv_def empty_config_def)
  from parse_lines_inv[OF pl this] have inv: "registry_inv cfg ex" .
  from assms pl obtain pd where pd: "participants cfg = Some pd" and sub: "ex \<subseteq> set (map fst pd)"
    unfolding parse_config_file_def by (auto simp: Let_def split: option.splits if_splits)
  with inv show ?thesis unfolding registry_inv_def by fastforce
qed

lemma example_parse: "parse_config_file example_file = Inr example_config"
  by (simp add: parse_config_file_def parse_participant_line_def example_file_def
      example_config_def example_participants_def empty_config_def strip_def isspace_def
      Let_def insert_commute)

lemma example_run:
  "get_assignments example_config (sconst 0)
     = Inr (Some [(''b'', ''a''), (''c'', ''b''), (''a'', ''c'')], sconst 0)"
  by (simp add: get_assignments_def example_config_def example_participants_def shuffle_def
      randbelow_def choice_def tuple_of_def Let_def insert_Diff_if)

subsection \<open>The result of a successful attempt\<close>

text \<open>
  C1. Whenever \<open>get_assignments\<close> returns a dictionary for a participant table whose ids
  are unique, the givers (the keys) and the receivers (the values) of the result are each
  exactly the set of all participant ids, and no id occurs twice among the keys or among
  the values: the result is a bijection on the participant ids.
\<close>

theorem get_assignments_bijection:
  assumes "participants cfg = Some pd" and "distinct (map fst pd)"
    and "get_assignments cfg s = Inr (Some a, s')"
  shows "set (map fst a) = set (map fst pd) \<and> set (map snd a) = set (map fst pd)
     \<and> distinct (map fst a) \<and> distinct (map snd a)"
proof -
  obtain order s1 where sh: "shuffle (map fst pd) s = (order, s1)"
    by (cases "shuffle (map fst pd) s")
  from shuffle_mset[OF sh] have ms: "mset order = mset (map fst pd)" .
  then have so: "set order = set (map fst pd)" by (rule mset_eq_setD)
  from ms assms(2) have dorder: "distinct order" by (metis distinct_count_atmost_1 set_mset_mset)
  from ms have lo: "length order = length pd" by (metis length_map size_mset)
  from assms(1,3) sh have run: "assign_loop pd order (set (map fst pd)) [] s1 = Inr (Some a, s')"
    by (simp add: get_assignments_def)
  have "distinct (map fst a) \<and> distinct (map snd a)
     \<and> fst ` set a = set order \<and> snd ` set a \<subseteq> set (map fst pd)
     \<and> length a = length order"
    using assign_loop_inv[OF run] dorder by simp
  then have d2: "distinct (map snd a)" and sub: "set (map snd a) \<subseteq> set (map fst pd)"
    and la: "length a = length pd" and f: "set (map fst a) = set (map fst pd)"
    and d1: "distinct (map fst a)"
    using lo so by auto
  have "card (set (map snd a)) = length a" using d2 by (metis distinct_card length_map)
  also have "\<dots> = card (set (map fst pd))" using assms(2) la by (metis distinct_card length_map)
  finally have "set (map snd a) = set (map fst pd)"
    using sub by (intro card_subset_eq) auto
  with f d1 d2 show ?thesis by simp
qed

theorem get_assignments_bijection_witness:
  "participants example_config = Some example_participants
   \<and> distinct (map fst example_participants)
   \<and> get_assignments example_config (sconst 0)
       = Inr (Some [(''b'', ''a''), (''c'', ''b''), (''a'', ''c'')], sconst 0)
   \<and> set (map fst [(''b'', ''a''), (''c'', ''b''), (''a'', ''c'')]) = set (map fst example_participants)
   \<and> set (map snd [(''b'', ''a''), (''c'', ''b''), (''a'', ''c'')]) = set (map fst example_participants)
   \<and> distinct (map fst [(''b'', ''a''), (''c'', ''b''), (''a'', ''c'')])
   \<and> distinct (map snd [(''b'', ''a''), (''c'', ''b''), (''a'', ''c'')])"
proof -
  have h1: "participants example_config = Some example_participants"
    by (simp add: example_config_def)
  have h2: "distinct (map fst example_participants)"
    by (simp add: example_participants_def)
  note h3 = example_run
  from get_assignments_bijection[OF h1 h2 h3] h1 h2 h3 show ?thesis by simp
qed

text \<open>
  C2. For a configuration loaded by \<open>parse_config_file\<close> and a dictionary returned by
  \<open>get_assignments\<close>, the receiver \<open>assignment[g]\<close> of every giver \<open>g\<close> is not in the
  exclusion set of \<open>g\<close>; that set contains \<open>g\<close>, so nobody is assigned to themselves.
\<close>

theorem exclusions_respected:
  assumes "parse_config_file cfg_file = Inr cfg"
    and "get_assignments cfg s = Inr (Some a, s')"
    and "map_of a g = Some r"
  shows "\<exists>pd p. participants cfg = Some pd \<and> map_of pd g = Some p
     \<and> g \<in> exclusion_ids p \<and> r \<notin> exclusion_ids p \<and> r \<noteq> g"
proof -
  from parse_config_file_registry[OF assms(1)] obtain pd where
    pd: "participants cfg = Some pd"
    and self: "\<forall>(k, p) \<in> set pd. k \<in> exclusion_ids p \<and> exclusion_ids p \<subseteq> set (map fst pd)"
    by blast
  obtain order s1 where sh: "shuffle (map fst pd) s = (order, s1)"
    by (cases "shuffle (map fst pd) s")
  from assms(2) pd sh have run: "assign_loop pd order (set (map fst pd)) [] s1 = Inr (Some a, s')"
    by (simp add: get_assignments_def)
  from assms(3) have "(g, r) \<in> set a" by (rule map_of_SomeD)
  from assign_loop_excl[OF run _ this] obtain p where
    p: "map_of pd g = Some p" and ex: "r \<notin> exclusion_ids p" by auto
  from p have "(g, p) \<in> set pd" by (rule map_of_SomeD)
  with self have "g \<in> exclusion_ids p" by auto
  with pd p ex show ?thesis by auto
qed

theorem exclusions_respected_witness:
  "parse_config_file example_file = Inr example_config
   \<and> get_assignments example_config (sconst 0)
       = Inr (Some [(''b'', ''a''), (''c'', ''b''), (''a'', ''c'')], sconst 0)
   \<and> map_of [(''b'', ''a''), (''c'', ''b''), (''a'', ''c'')] ''a'' = Some ''c''
   \<and> (\<exists>pd p. participants example_config = Some pd \<and> map_of pd ''a'' = Some p
     \<and> ''a'' \<in> exclusion_ids p \<and> ''c'' \<notin> exclusion_ids p \<and> ''c'' \<noteq> ''a'')"
proof -
  note h1 = example_parse
  note h2 = example_run
  have h3: "map_of [(''b'', ''a''), (''c'', ''b''), (''a'', ''c'')] ''a'' = Some ''c''"
    by simp
  from exclusions_respected[OF h1 h2 h3] h1 h2 h3 show ?thesis by blast
qed

subsection \<open>Attempts never raise on a participant table\<close>

lemma choice_total: "xs \<noteq> [] \<Longrightarrow> \<exists>x s'. choice xs s = Inr (x, s') \<and> x \<in> set xs"
  by (auto simp: choice_def randbelow_def)

lemma tuple_of_nonempty: "finite S \<Longrightarrow> S \<noteq> {} \<Longrightarrow> tuple_of S \<noteq> []"
  by (simp add: tuple_of_def)

lemma assign_loop_total:
  "set todo \<subseteq> fst ` set pd \<Longrightarrow> finite rem \<Longrightarrow> \<exists>a s'. assign_loop pd todo rem asg s = Inr (a, s')"
proof (induction todo arbitrary: rem asg s)
  case Nil
  then show ?case by simp
next
  case (Cons g todo)
  from Cons.prems(1) have "g \<in> fst ` set pd" by simp
  then obtain p where p: "map_of pd g = Some p"
    by (metis domD domI dom_map_of_conv_image_fst)
  let ?av = "rem - exclusion_ids p"
  show ?case
  proof (cases "?av = {}")
    case True
    with p show ?thesis by simp
  next
    case False
    have fin: "finite ?av" using Cons.prems(2) by simp
    from choice_total[OF tuple_of_nonempty[OF fin False], of s] obtain r s1 where
      ch: "choice (tuple_of ?av) s = Inr (r, s1)" and rin: "r \<in> set (tuple_of ?av)" by blast
    from rin fin have r: "r \<in> rem" by (simp add: set_tuple_of)
    from Cons.IH[of "rem - {r}" "AList.update g r asg" s1] Cons.prems obtain a s' where
      "assign_loop pd todo (rem - {r}) (AList.update g r asg) s1 = Inr (a, s')" by auto
    with p False ch r show ?thesis by (simp add: Let_def)
  qed
qed

lemma get_assignments_total:
  assumes "participants cfg = Some pd"
  shows "\<exists>a s'. get_assignments cfg s = Inr (a, s')"
proof -
  obtain order s1 where sh: "shuffle (map fst pd) s = (order, s1)"
    by (cases "shuffle (map fst pd) s")
  from shuffle_mset[OF sh] have "set order = set (map fst pd)" by (rule mset_eq_setD)
  then have "set order \<subseteq> fst ` set pd" by simp
  from assign_loop_total[OF this, of "set (map fst pd)" "[]" s1] assms sh
  show ?thesis by (simp add: get_assignments_def)
qed

lemma assign_loop_stuck:
  assumes "k \<in> set todo" and "map_of pd k = Some p" and "rem \<subseteq> exclusion_ids p"
    and "set todo \<subseteq> fst ` set pd" and "finite rem"
  shows "\<exists>s'. assign_loop pd todo rem asg s = Inr (None, s')"
  using assms
proof (induction todo arbitrary: rem asg s)
  case Nil
  then show ?case by simp
next
  case (Cons g todo)
  from Cons.prems(4) have "g \<in> fst ` set pd" by simp
  then obtain q where q: "map_of pd g = Some q"
    by (metis domD domI dom_map_of_conv_image_fst)
  let ?av = "rem - exclusion_ids q"
  show ?case
  proof (cases "?av = {}")
    case True
    with q show ?thesis by simp
  next
    case False
    with q Cons.prems(2,3) have gk: "g \<noteq> k" by auto
    with Cons.prems(1) have kt: "k \<in> set todo" by simp
    have fin: "finite ?av" using Cons.prems(5) by simp
    from choice_total[OF tuple_of_nonempty[OF fin False], of s] obtain r s1 where
      ch: "choice (tuple_of ?av) s = Inr (r, s1)" and rin: "r \<in> set (tuple_of ?av)" by blast
    from rin fin have r: "r \<in> rem" by (simp add: set_tuple_of)
    from Cons.IH[OF kt Cons.prems(2), of "rem - {r}" "AList.update g r asg" s1] Cons.prems
    obtain s' where
      "assign_loop pd todo (rem - {r}) (AList.update g r asg) s1 = Inr (None, s')" by auto
    with q False ch r show ?thesis by (simp add: Let_def)
  qed
qed

lemma get_assignments_stuck:
  assumes "participants cfg = Some pd" and "map_of pd k = Some p"
    and "set (map fst pd) \<subseteq> exclusion_ids p"
  shows "\<exists>s'. get_assignments cfg s = Inr (None, s')"
proof -
  obtain order s1 where sh: "shuffle (map fst pd) s = (order, s1)"
    by (cases "shuffle (map fst pd) s")
  from shuffle_mset[OF sh] have so: "set order = set (map fst pd)" by (rule mset_eq_setD)
  from assms(2) have "k \<in> set (map fst pd)" by (force dest: map_of_SomeD)
  with so have k: "k \<in> set order" by simp
  from so have sub: "set order \<subseteq> fst ` set pd" by simp
  from assign_loop_stuck[OF k assms(2,3) sub, of "[]" s1] assms(1) sh
  show ?thesis by (simp add: get_assignments_def)
qed

subsection \<open>The retry loop\<close>

declare retry_loop.simps [simp del]

lemma retry_loop_inv:
  "retry_loop cfg st = Inr st' \<Longrightarrow> loop_inv st \<Longrightarrow>
     loop_inv st' \<and> (truthy (assignments_var st') \<or> attempts st' = Suc MAX_ASSIGNMENT_ATTEMPTS)
     \<and> length (calls st) \<le> length (calls st')"
proof (induction cfg st rule: retry_loop.induct)
  case (1 cfg st)
  show ?case
  proof (cases "attempts st \<le> MAX_ASSIGNMENT_ATTEMPTS \<and> \<not> truthy (assignments_var st)")
    case False
    with "1.prems" have "st' = st" by (simp add: retry_loop.simps[of cfg st])
    with False "1.prems"(2) show ?thesis by (auto simp: loop_inv_def)
  next
    case True
    with "1.prems"(1) obtain a s1 where g: "get_assignments cfg (rng st) = Inr (a, s1)"
      and rec: "retry_loop cfg \<lparr>attempts = attempts st + 1, assignments_var = a, rng = s1,
                calls = calls st @ [a]\<rparr> = Inr st'"
      by (auto simp: retry_loop.simps[of cfg st] split: sum.splits)
    let ?st1 = "\<lparr>attempts = attempts st + 1, assignments_var = a, rng = s1, calls = calls st @ [a]\<rparr>"
    have "loop_inv ?st1"
      unfolding loop_inv_def
    proof (intro conjI allI impI)
      show "attempts ?st1 = length (calls ?st1)" using "1.prems"(2) by (simp add: loop_inv_def)
      show "length (calls ?st1) \<le> Suc MAX_ASSIGNMENT_ATTEMPTS"
        using "1.prems"(2) True by (simp add: loop_inv_def)
      show "assignments_var ?st1 = (if calls ?st1 = [] then None else last (calls ?st1))" by simp
    next
      fix i assume i: "Suc i < length (calls ?st1)"
      show "\<not> truthy (calls ?st1 ! i)"
      proof (cases "Suc i < length (calls st)")
        case True
        with "1.prems"(2) show ?thesis by (simp add: loop_inv_def nth_append)
      next
        case False
        with i have e: "Suc i = length (calls st)" by simp
        then have "calls st \<noteq> []" by auto
        with "1.prems"(2) have "assignments_var st = last (calls st)" by (simp add: loop_inv_def)
        moreover have "last (calls st) = calls st ! i" using e by (metis diff_Suc_1 last_conv_nth \<open>calls st \<noteq> []\<close>)
        ultimately show ?thesis using True e by (simp add: nth_append)
      qed
    qed
    from "1.IH"[OF True g refl rec this] show ?thesis by simp
  qed
qed

lemma retry_loop_total:
  "participants cfg = Some pd \<Longrightarrow> \<exists>st'. retry_loop cfg st = Inr st'"
proof (induction cfg st rule: retry_loop.induct)
  case (1 cfg st)
  show ?case
  proof (cases "attempts st \<le> MAX_ASSIGNMENT_ATTEMPTS \<and> \<not> truthy (assignments_var st)")
    case False
    then show ?thesis by (auto simp: retry_loop.simps[of cfg st])
  next
    case True
    from get_assignments_total[OF "1.prems", of "rng st"] obtain a s1 where
      g: "get_assignments cfg (rng st) = Inr (a, s1)" by blast
    from "1.IH"[OF True g refl "1.prems"] obtain st' where
      "retry_loop cfg \<lparr>attempts = attempts st + 1, assignments_var = a, rng = s1,
                calls = calls st @ [a]\<rparr> = Inr st'" by blast
    with True g show ?thesis by (simp add: retry_loop.simps[of cfg st])
  qed
qed

lemma retry_loop_all_none:
  "\<forall>s. \<exists>s'. get_assignments cfg s = Inr (None, s') \<Longrightarrow>
   assignments_var st = None \<Longrightarrow> attempts st \<le> Suc MAX_ASSIGNMENT_ATTEMPTS \<Longrightarrow>
     \<exists>st'. retry_loop cfg st = Inr st' \<and> attempts st' = Suc MAX_ASSIGNMENT_ATTEMPTS
        \<and> assignments_var st' = None
        \<and> calls st' = calls st @ replicate (Suc MAX_ASSIGNMENT_ATTEMPTS - attempts st) None"
proof (induction cfg st rule: retry_loop.induct)
  case (1 cfg st)
  show ?case
  proof (cases "attempts st \<le> MAX_ASSIGNMENT_ATTEMPTS")
    case False
    with "1.prems" have "attempts st = Suc MAX_ASSIGNMENT_ATTEMPTS" by simp
    with "1.prems" show ?thesis by (simp add: retry_loop.simps[of cfg st])
  next
    case True
    with "1.prems" have c: "attempts st \<le> MAX_ASSIGNMENT_ATTEMPTS \<and> \<not> truthy (assignments_var st)"
      by simp
    from "1.prems"(1) obtain s1 where g: "get_assignments cfg (rng st) = Inr (None, s1)" by blast
    let ?st1 = "\<lparr>attempts = attempts st + 1, assignments_var = None, rng = s1,
                calls = calls st @ [None]\<rparr>"
    from "1.IH"[OF c g refl "1.prems"(1)] True obtain st' where
      r: "retry_loop cfg ?st1 = Inr st'" and a: "attempts st' = Suc MAX_ASSIGNMENT_ATTEMPTS"
      and v: "assignments_var st' = None"
      and l: "calls st' = calls ?st1 @ replicate (Suc MAX_ASSIGNMENT_ATTEMPTS - attempts ?st1) None"
      by auto
    have "Suc MAX_ASSIGNMENT_ATTEMPTS - attempts st = Suc (MAX_ASSIGNMENT_ATTEMPTS - attempts st)"
      using True by simp
    with l have "calls st' = calls st @ replicate (Suc MAX_ASSIGNMENT_ATTEMPTS - attempts st) None"
      by simp
    with r a v c g show ?thesis by (simp add: retry_loop.simps[of cfg st])
  qed
qed

lemma infeasible_run:
  assumes "\<forall>s. \<exists>s'. get_assignments cfg s = Inr (None, s')"
  shows "(\<exists>st. retry_loop cfg (initial_state s) = Inr st \<and> attempts st = 4
           \<and> calls st = [None, None, None, None])
     \<and> find_assignments cfg s = Inl (AssignmentRestrictions 4)"
proof -
  from retry_loop_all_none[OF assms, of "initial_state s"] obtain st where
    r: "retry_loop cfg (initial_state s) = Inr st" and a: "attempts st = Suc MAX_ASSIGNMENT_ATTEMPTS"
    and v: "assignments_var st = None"
    and l: "calls st = replicate (Suc MAX_ASSIGNMENT_ATTEMPTS) None"
    by (auto simp: initial_state_def)
  have four: "Suc MAX_ASSIGNMENT_ATTEMPTS = 4" by (simp add: MAX_ASSIGNMENT_ATTEMPTS_def)
  have "replicate 4 (None :: assignments option) = [None, None, None, None]"
    by (simp add: numeral_eq_Suc)
  with r a v l four show ?thesis by (simp add: find_assignments_def)
qed

lemma lone_parse: "parse_config_file lone_file = Inr lone_config"
  by (simp add: parse_config_file_def parse_participant_line_def lone_file_def
      lone_config_def lone_participant_def empty_config_def strip_def isspace_def Let_def)

text \<open>
  C3. On every participant table the retry loop ends, and it invokes \<open>get_assignments\<close>
  at most \<open>MAX_ASSIGNMENT_ATTEMPTS + 1 = 4\<close> times (one attempt and three retries):
  \<open>calls\<close> lists the invocations and \<open>attempts\<close> counts them. An invocation that
  returned a non-empty dictionary is the last one, and the loop gives up without such a
  result only after the fourth invocation.
\<close>

theorem retry_bound:
  assumes "participants cfg = Some pd"
  shows "\<exists>st. retry_loop cfg (initial_state s) = Inr st
     \<and> attempts st = length (calls st)
     \<and> length (calls st) \<le> MAX_ASSIGNMENT_ATTEMPTS + 1 \<and> MAX_ASSIGNMENT_ATTEMPTS + 1 = 4
     \<and> (\<forall>i < length (calls st). truthy (calls st ! i) \<longrightarrow> Suc i = length (calls st))
     \<and> (\<not> truthy (assignments_var st) \<longrightarrow> length (calls st) = MAX_ASSIGNMENT_ATTEMPTS + 1)"
proof -
  from retry_loop_total[OF assms] obtain st where r: "retry_loop cfg (initial_state s) = Inr st"
    by blast
  have "loop_inv (initial_state s)" by (simp add: loop_inv_def initial_state_def)
  from retry_loop_inv[OF r this] have inv: "loop_inv st"
    and fin: "truthy (assignments_var st) \<or> attempts st = Suc MAX_ASSIGNMENT_ATTEMPTS" by auto
  have stop: "Suc i = length (calls st)" if "i < length (calls st)" "truthy (calls st ! i)" for i
  proof (rule ccontr)
    assume "Suc i \<noteq> length (calls st)"
    with that(1) have "Suc i < length (calls st)" by simp
    with inv that(2) show False by (simp add: loop_inv_def)
  qed
  from inv fin stop r show ?thesis
    by (auto simp: loop_inv_def MAX_ASSIGNMENT_ATTEMPTS_def)
qed

theorem retry_bound_witness:
  "participants example_config = Some example_participants
   \<and> (\<exists>st. retry_loop example_config (initial_state (sconst 0)) = Inr st
     \<and> attempts st = length (calls st)
     \<and> length (calls st) \<le> MAX_ASSIGNMENT_ATTEMPTS + 1 \<and> MAX_ASSIGNMENT_ATTEMPTS + 1 = 4
     \<and> (\<forall>i < length (calls st). truthy (calls st ! i) \<longrightarrow> Suc i = length (calls st))
     \<and> (\<not> truthy (assignments_var st) \<longrightarrow> length (calls st) = MAX_ASSIGNMENT_ATTEMPTS + 1))"
proof -
  have h: "participants example_config = Some example_participants"
    by (simp add: example_config_def)
  from retry_bound[OF h, of "sconst 0"] h show ?thesis by simp
qed

text \<open>
  C5. When the exclusion set of some participant contains every participant id (as it
  does when it equals the set of all ids), every invocation of \<open>get_assignments\<close>
  returns \<open>None\<close> whatever the random draws are, the retry loop makes exactly four
  invocations, and the script raises the exception that names \<open>attempts=4\<close>.
\<close>

theorem infeasible_exhausts:
  assumes "participants cfg = Some pd" and "map_of pd k = Some p"
    and "set (map fst pd) \<subseteq> exclusion_ids p"
  shows "(\<exists>s'. get_assignments cfg s = Inr (None, s'))
     \<and> (\<exists>st. retry_loop cfg (initial_state s) = Inr st \<and> attempts st = 4
           \<and> calls st = [None, None, None, None])
     \<and> find_assignments cfg s = Inl (AssignmentRestrictions 4)"
proof -
  have all: "\<forall>s. \<exists>s'. get_assignments cfg s = Inr (None, s')"
    using get_assignments_stuck[OF assms] by blast
  with infeasible_run[OF all, of s] show ?thesis by blast
qed

theorem infeasible_exhausts_witness:
  "participants blocked_config = Some blocked_participants
   \<and> map_of blocked_participants ''a''
       = Some \<lparr>name = ''A'', email = ''a@e'', exclusion_ids = {''a'', ''b''}\<rparr>
   \<and> set (map fst blocked_participants) \<subseteq> {''a'', ''b''}
   \<and> (\<exists>s'. get_assignments blocked_config (sconst 0) = Inr (None, s'))
   \<and> (\<exists>st. retry_loop blocked_config (initial_state (sconst 0)) = Inr st \<and> attempts st = 4
           \<and> calls st = [None, None, None, None])
   \<and> find_assignments blocked_config (sconst 0) = Inl (AssignmentRestrictions 4)"
proof -
  have h1: "participants blocked_config = Some blocked_participants"
    by (simp add: blocked_config_def)
  have h2: "map_of blocked_participants ''a''
       = Some \<lparr>name = ''A'', email = ''a@e'', exclusion_ids = {''a'', ''b''}\<rparr>"
    by (simp add: blocked_participants_def)
  have h3: "set (map fst blocked_participants)
       \<subseteq> exclusion_ids \<lparr>name = ''A'', email = ''a@e'', exclusion_ids = {''a'', ''b''}\<rparr>"
    by (simp add: blocked_participants_def)
  from infeasible_exhausts[OF h1 h2 h3, of "sconst 0"] h1 h2 h3 show ?thesis by simp
qed

text \<open>
  C6. With exactly one participant, whose exclusion set contains their own id as
  \<open>parse_config_file\<close> makes it, the available set of the sole giver is empty, every
  invocation of \<open>get_assignments\<close> returns \<open>None\<close>, and the script raises the
  exception of an infeasible configuration after all four attempts.
\<close>

theorem single_participant_infeasible:
  assumes "participants cfg = Some [(k, p)]" and "k \<in> exclusion_ids p"
  shows "set (map fst [(k, p)]) - exclusion_ids p = {}
     \<and> (\<exists>s'. get_assignments cfg s = Inr (None, s'))
     \<and> (\<exists>st. retry_loop cfg (initial_state s) = Inr st \<and> attempts st = 4
           \<and> calls st = [None, None, None, None])
     \<and> find_assignments cfg s = Inl (AssignmentRestrictions 4)"
proof -
  have m: "map_of [(k, p)] k = Some p" by simp
  have sub: "set (map fst [(k, p)]) \<subseteq> exclusion_ids p" using assms(2) by simp
  have all: "\<forall>s. \<exists>s'. get_assignments cfg s = Inr (None, s')"
    using get_assignments_stuck[OF assms(1) m sub] by blast
  with infeasible_run[OF all, of s] sub show ?thesis by blast
qed

theorem single_participant_infeasible_witness:
  "parse_config_file lone_file = Inr lone_config
   \<and> participants lone_config = Some [(''a'', lone_participant)]
   \<and> ''a'' \<in> exclusion_ids lone_participant
   \<and> set (map fst [(''a'', lone_participant)]) - exclusion_ids lone_participant = {}
   \<and> (\<exists>s'. get_assignments lone_config (sconst 0) = Inr (None, s'))
   \<and> (\<exists>st. retry_loop lone_config (initial_state (sconst 0)) = Inr st \<and> attempts st = 4
           \<and> calls st = [None, None, None, None])
   \<and> find_assignments lone_config (sconst 0) = Inl (AssignmentRestrictions 4)"
proof -
  have h1: "participants lone_config = Some [(''a'', lone_participant)]"
    by (simp add: lone_config_def)
  have h2: "''a'' \<in> exclusion_ids lone_participant"
    by (simp add: lone_participant_def)
  from single_participant_infeasible[OF h1 h2, of "sconst 0"] h1 h2 lone_parse
  show ?thesis by simp
qed

subsection \<open>The administrator lines and the participant table\<close>

lemma parse_lines_blank:
  "2 \<le> n \<Longrightarrow> \<forall>l \<in> set ls. strip l = [] \<Longrightarrow> parse_lines n ls cfg ex = Inr (cfg, ex)"
  by (induction ls arbitrary: n) auto

lemma parse_participant_line_admin:
  "parse_participant_line line cfg ex = Inr (cfg', ex') \<Longrightarrow>
     administrator_email cfg' = administrator_email cfg
     \<and> administrator_email_password cfg' = administrator_email_password cfg"
  unfolding parse_participant_line_def
  by (auto simp: Let_def split: list.splits if_splits)

lemma parse_lines_admin:
  "parse_lines n ls cfg ex = Inr (cfg', ex') \<Longrightarrow> 2 \<le> n \<Longrightarrow>
     administrator_email cfg' = administrator_email cfg
     \<and> administrator_email_password cfg' = administrator_email_password cfg"
proof (induction ls arbitrary: n cfg ex)
  case Nil
  then show ?case by simp
next
  case (Cons line rest)
  show ?case
  proof (cases "strip line = []")
    case True
    with Cons.prems Cons.IH[of "Suc n" cfg ex] show ?thesis by simp
  next
    case False
    with Cons.prems obtain c1 e1 where
      pl: "parse_participant_line line cfg ex = Inr (c1, e1)"
      and rec: "parse_lines (Suc n) rest c1 e1 = Inr (cfg', ex')"
      by (auto split: sum.splits)
    from Cons.IH[OF rec] Cons.prems(2) parse_participant_line_admin[OF pl]
    show ?thesis by simp
  qed
qed

lemma parse_participant_line_not_missing:
  "parse_participant_line line cfg ex \<noteq> Inl MissingParticipants"
  unfolding parse_participant_line_def
  by (auto simp: Let_def split: list.splits)

lemma parse_lines_not_missing: "parse_lines n ls cfg ex \<noteq> Inl MissingParticipants"
proof (induction ls arbitrary: n cfg ex)
  case Nil
  then show ?case by simp
next
  case (Cons line rest)
  then show ?case
    using parse_participant_line_not_missing[of line cfg ex]
    by (auto split: sum.splits)
qed

text \<open>
  C8. When every line after the first two is blank (so the file has no participant
  line), \<open>parse_config_file\<close> raises the KeyError of the missing key \<open>participants\<close>,
  at the expression that reads the participant table; and for no file at all does it
  raise the exception "Missing participants in configuration file.".
\<close>

theorem missing_participants_unreachable:
  "((\<forall>l \<in> set (drop 2 cfg_file). strip l = []) \<longrightarrow>
      parse_config_file cfg_file = Inl (KeyError ''participants''))
   \<and> parse_config_file any_file \<noteq> Inl MissingParticipants"
proof
  show "(\<forall>l \<in> set (drop 2 cfg_file). strip l = []) \<longrightarrow>
      parse_config_file cfg_file = Inl (KeyError ''participants'')"
  proof
    assume b: "\<forall>l \<in> set (drop 2 cfg_file). strip l = []"
    show "parse_config_file cfg_file = Inl (KeyError ''participants'')"
    proof (cases cfg_file)
      case Nil
      then show ?thesis
        by (simp add: parse_config_file_def empty_config_def PARTICIPANTS_KEY_def)
    next
      case (Cons l0 r0)
      show ?thesis
      proof (cases r0)
        case Nil
        with Cons show ?thesis
          by (simp add: parse_config_file_def empty_config_def PARTICIPANTS_KEY_def)
      next
        case (Cons l1 rest)
        with b \<open>cfg_file = l0 # r0\<close> have "\<forall>l \<in> set rest. strip l = []" by simp
        from parse_lines_blank[OF _ this, of 2] Cons \<open>cfg_file = l0 # r0\<close> show ?thesis
          by (simp add: parse_config_file_def empty_config_def PARTICIPANTS_KEY_def numeral_2_eq_2)
      qed
    qed
  qed
  show "parse_config_file any_file \<noteq> Inl MissingParticipants"
    using parse_lines_not_missing[of 0 any_file empty_config "{}"]
    by (auto simp: parse_config_file_def Let_def split: sum.splits option.splits)
qed

theorem missing_participants_unreachable_witness:
  "map strip (drop 2 admin_only_file) = [[]]
   \<and> parse_config_file admin_only_file = Inl (KeyError ''participants'')
   \<and> parse_config_file admin_only_file \<noteq> Inl MissingParticipants"
proof -
  have h: "\<forall>l \<in> set (drop 2 admin_only_file). strip l = []"
    by (simp add: admin_only_file_def strip_def isspace_def)
  have m: "map strip (drop 2 admin_only_file) = [[]]"
    by (simp add: admin_only_file_def strip_def isspace_def)
  from missing_participants_unreachable[of admin_only_file admin_only_file] h m
  show ?thesis by blast
qed

lemma strip_last: "strip s \<noteq> [] \<Longrightarrow> \<not> isspace (last (strip s))"
proof -
  assume ne: "strip s \<noteq> []"
  let ?d = "dropWhile isspace (rev (dropWhile isspace s))"
  from ne have d: "?d \<noteq> []" by (simp add: strip_def)
  then have "\<not> isspace (hd ?d)" by (rule hd_dropWhile)
  moreover have "last (strip s) = hd ?d" using d by (simp add: strip_def last_rev)
  ultimately show ?thesis by simp
qed

text \<open>
  C9. Of a file that parses, the administrator email is the first line stripped of
  surrounding whitespace, and the administrator password is the second line as it is:
  when that line ends in a newline the stored password ends in it too, and differs from
  the stripped line.
\<close>

theorem administrator_fields:
  assumes "parse_config_file (line0 # line1 # rest) = Inr cfg"
  shows "administrator_email cfg = Some (strip line0)
     \<and> administrator_email_password cfg = Some line1
     \<and> (line1 \<noteq> [] \<and> last line1 = CHR 0x0A \<longrightarrow>
          (\<exists>pw. administrator_email_password cfg = Some pw \<and> last pw = CHR 0x0A
             \<and> pw \<noteq> strip line1))"
proof -
  let ?c2 = "empty_config\<lparr>administrator_email := Some (strip line0),
               administrator_email_password := Some line1\<rparr>"
  from assms obtain ex where pl: "parse_lines 2 rest ?c2 {} = Inr (cfg, ex)"
    unfolding parse_config_file_def
    by (auto simp: Let_def numeral_2_eq_2 split: sum.splits option.splits if_splits)
  from parse_lines_admin[OF pl] have e: "administrator_email cfg = Some (strip line0)"
    and p: "administrator_email_password cfg = Some line1" by simp_all
  have "line1 \<noteq> strip line1" if "line1 \<noteq> []" "last line1 = CHR 0x0A"
  proof
    assume eq: "line1 = strip line1"
    with that(1) have "\<not> isspace (last (strip line1))" by (intro strip_last) simp
    with eq that(2) show False by (simp add: isspace_def)
  qed
  with e p show ?thesis by auto
qed

theorem administrator_fields_witness:
  "parse_config_file (''administrator@gmail.com\<newline>'' # ''myGmailGeneratedAppPassword\<newline>'' #
       [''a, A, a@e, (b)\<newline>'', ''b, B, b@e, ()\<newline>'', ''c, C, c@e, ()'']) = Inr example_config
   \<and> administrator_email example_config = Some ''administrator@gmail.com''
   \<and> administrator_email_password example_config = Some ''myGmailGeneratedAppPassword\<newline>''
   \<and> strip ''myGmailGeneratedAppPassword\<newline>'' = ''myGmailGeneratedAppPassword''"
proof -
  have h: "parse_config_file (''administrator@gmail.com\<newline>'' # ''myGmailGeneratedAppPassword\<newline>'' #
       [''a, A, a@e, (b)\<newline>'', ''b, B, b@e, ()\<newline>'', ''c, C, c@e, ()'']) = Inr example_config"
    using example_parse by (simp add: example_file_def)
  have s0: "strip ''administrator@gmail.com\<newline>'' = ''administrator@gmail.com''"
    by (simp add: strip_def isspace_def)
  have s1: "strip ''myGmailGeneratedAppPassword\<newline>'' = ''myGmailGeneratedAppPassword''"
    by (simp add: strip_def isspace_def)
  from administrator_fields[OF h] h s0 s1 show ?thesis by simp
qed

subsection \<open>The assignment id is seven hexadecimal digits\<close>

lemma digit_value_all: "list_all (\<lambda>n. digit_value (hex_digit n) = n) [0..<16]"
  by code_simp

lemma digit_value_hex_digit: "n < 16 \<Longrightarrow> digit_value (hex_digit n) = n"
  using digit_value_all by (simp add: list_all_iff)

lemma nibble: "unat (drop_bit (4 * i) (u :: 128 word) AND 15) = unat u div 16 ^ i mod 16"
proof -
  have "(15 :: 128 word) = mask 4" by (simp add: mask_eq_exp_minus_1)
  then have "unat (drop_bit (4 * i) u AND 15) = unat (take_bit 4 (drop_bit (4 * i) u))"
    by (simp add: take_bit_eq_mask)
  also have "\<dots> = take_bit 4 (unat (drop_bit (4 * i) u))"
    by (simp add: unsigned_take_bit_eq)
  also have "\<dots> = take_bit 4 (drop_bit (4 * i) (unat u))"
    by (simp only: unat_drop_bit_eq)
  also have "\<dots> = unat u div 2 ^ (4 * i) mod 2 ^ 4"
    by (simp only: take_bit_eq_mod drop_bit_eq_div)
  also have "(2::nat) ^ (4 * i) = 16 ^ i" by (simp add: power_mult)
  finally show ?thesis by simp
qed

lemma hex_value_snoc: "hex_value (cs @ [c]) = 16 * hex_value cs + digit_value c"
  by (simp add: hex_value_def)

lemma hex_value_Cons: "hex_value (c # cs) = digit_value c * 16 ^ length cs + hex_value cs"
proof (induction cs rule: rev_induct)
  case Nil
  then show ?case by (simp add: hex_value_def)
next
  case (snoc x xs)
  have "hex_value (c # xs @ [x]) = 16 * hex_value (c # xs) + digit_value x"
    using hex_value_snoc[of "c # xs" x] by simp
  with snoc show ?case by (simp add: hex_value_snoc algebra_simps)
qed

lemma hex_value_nibbles:
  "hex_value (map (\<lambda>i. hex_digit (unat (drop_bit (4 * i) (u :: 128 word) AND 15))) (rev [m..<m + k]))
     = unat u div 16 ^ m mod 16 ^ k"
proof (induction k)
  case 0
  then show ?case by (simp add: hex_value_def)
next
  case (Suc k)
  let ?f = "\<lambda>i. hex_digit (unat (drop_bit (4 * i) u AND 15))"
  let ?x = "unat u div 16 ^ m"
  have "unat u div 16 ^ (m + k) mod 16 < 16" by simp
  then have d: "digit_value (?f (m + k)) = unat u div 16 ^ (m + k) mod 16"
    by (simp only: nibble digit_value_hex_digit)
  have "hex_value (map ?f (rev [m..<m + Suc k]))
      = hex_value (?f (m + k) # map ?f (rev [m..<m + k]))" by simp
  also have "\<dots> = digit_value (?f (m + k)) * 16 ^ k + hex_value (map ?f (rev [m..<m + k]))"
    by (simp add: hex_value_Cons)
  also have "\<dots> = (?x div 16 ^ k mod 16) * 16 ^ k + ?x mod 16 ^ k"
    using Suc d by (simp add: power_add div_mult2_eq)
  also have "\<dots> = ?x mod 16 ^ Suc k"
    using mod_mult2_eq[of ?x "16 ^ k" 16] by (simp add: mult.commute)
  finally show ?case .
qed

lemma unat_128: "unat (u :: 128 word) < 16 ^ 32"
proof -
  have "unat u < 2 ^ 128" using unsigned_less[of u, where 'a = nat] by simp
  then show ?thesis by simp
qed

lemma hex_value_hex: "hex_value (hex u) = unat u"
proof -
  have "hex_value (hex u) = unat u div 16 ^ 0 mod 16 ^ 32"
    unfolding hex_def using hex_value_nibbles[of u 0 32] by simp
  with unat_128[of u] show ?thesis by simp
qed

lemma take7: "take 7 (rev [0..<32]) = rev [25..<25 + 7]"
  by (simp add: take_rev)

lemma hex_value_uuid: "hex_value (assignment_uuid u) = unat u div 16 ^ 25"
proof -
  let ?f = "\<lambda>i. hex_digit (unat (drop_bit (4 * i) u AND 15))"
  have "assignment_uuid u = map ?f (rev [25..<25 + 7])"
    unfolding assignment_uuid_def hex_def MAX_ASSIGNMENT_UUID_LENGTH_def
    by (simp only: take_map take7)
  then have "hex_value (assignment_uuid u) = unat u div 16 ^ 25 mod 16 ^ 7"
    using hex_value_nibbles[of u 25 7] by simp
  moreover have "unat u div 16 ^ 25 < 16 ^ 7"
    using unat_128[of u] by (simp add: less_mult_imp_div_less)
  ultimately show ?thesis by simp
qed

lemma ex_uuid: "assignment_uuid 0x21f7d68a0b1c4d2e8f30123456789abc = ''21f7d68''"
  by (simp add: assignment_uuid_def hex_def hex_digit_def MAX_ASSIGNMENT_UUID_LENGTH_def upt_rec drop_bit_eq_div)

lemma ex_hex: "hex 0x21f7d68a0b1c4d2e8f30123456789abc = ''21f7d68a0b1c4d2e8f30123456789abc''"
  by (simp add: hex_def hex_digit_def upt_rec drop_bit_eq_div)

text \<open>
  C10. The hex form of the UUID \<open>u\<close> is the string of 32 lowercase hexadecimal digits
  whose value in base 16 is \<open>u\<close>. The assignment id is its first 7 characters: a string
  of 7 characters, so of at most 7, each a lowercase hexadecimal digit, whose value in
  base 16 is \<open>u\<close> without its 25 lowest digits, that is the 28 highest bits of \<open>u\<close>.
\<close>

theorem assignment_uuid_hex:
  "assignment_uuid u = take 7 (hex u) \<and> length (hex u) = 32
   \<and> set (hex u) \<subseteq> set ''0123456789abcdef'' \<and> hex_value (hex u) = unat u
   \<and> length (assignment_uuid u) \<le> 7 \<and> length (assignment_uuid u) = 7
   \<and> set (assignment_uuid u) \<subseteq> set ''0123456789abcdef''
   \<and> hex_value (assignment_uuid u) = unat u div 16 ^ 25"
proof -
  have d: "hex_digit (unat (w AND 15)) \<in> set ''0123456789abcdef''" for w :: "128 word"
  proof -
    have "w AND 15 \<le> 15" by (rule word_and_le1)
    then have "unat (w AND 15) \<le> unat (15 :: 128 word)" by (simp add: word_le_nat_alt)
    then have "unat (w AND 15) < length ''0123456789abcdef''" by simp
    then show ?thesis unfolding hex_digit_def by (rule nth_mem)
  qed
  have h: "set (hex u) \<subseteq> set ''0123456789abcdef''"
    unfolding hex_def using d by auto
  moreover have "set (assignment_uuid u) \<subseteq> set (hex u)"
    unfolding assignment_uuid_def by (rule set_take_subset)
  ultimately have a: "set (assignment_uuid u) \<subseteq> set ''0123456789abcdef''" by simp
  have l: "length (hex u) = 32" by (simp add: hex_def)
  have t: "assignment_uuid u = take 7 (hex u)"
    by (simp add: assignment_uuid_def MAX_ASSIGNMENT_UUID_LENGTH_def)
  from t l have l7: "length (assignment_uuid u) = 7" by simp
  from h a l t l7 hex_value_hex[of u] hex_value_uuid[of u] show ?thesis by simp
qed

theorem assignment_uuid_hex_witness:
  "hex 0x21f7d68a0b1c4d2e8f30123456789abc = ''21f7d68a0b1c4d2e8f30123456789abc''
   \<and> assignment_uuid 0x21f7d68a0b1c4d2e8f30123456789abc = ''21f7d68''
   \<and> hex_value (hex 0x21f7d68a0b1c4d2e8f30123456789abc)
       = unat (0x21f7d68a0b1c4d2e8f30123456789abc :: 128 word)
   \<and> hex_value (assignment_uuid 0x21f7d68a0b1c4d2e8f30123456789abc)
       = unat (0x21f7d68a0b1c4d2e8f30123456789abc :: 128 word) div 16 ^ 25
   \<and> length (assignment_uuid 0x21f7d68a0b1c4d2e8f30123456789abc) = 7"
proof -
  note t = assignment_uuid_hex[of "0x21f7d68a0b1c4d2e8f30123456789abc"]
  from t have a: "hex_value (hex 0x21f7d68a0b1c4d2e8f30123456789abc)
       = unat (0x21f7d68a0b1c4d2e8f30123456789abc :: 128 word)" by (rule conjE) blast
  from t have b: "hex_value (assignment_uuid 0x21f7d68a0b1c4d2e8f30123456789abc)
       = unat (0x21f7d68a0b1c4d2e8f30123456789abc :: 128 word) div 16 ^ 25" by blast
  from t have c: "length (assignment_uuid 0x21f7d68a0b1c4d2e8f30123456789abc) = 7" by blast
  show ?thesis using ex_hex ex_uuid a b c by (intro conjI)
qed

subsection \<open>The store: what a call leaves unchanged\<close>

lemma ex_read: "read_config example_heap (Ref 7) = Some example_config"
  by (simp add: read_config_def read_participants_def read_participant_def read_str_def deref_def
     example_heap_def example_config_def example_participants_def PARTICIPANTS_KEY_def
     PARTICIPANT_NAME_KEY_def PARTICIPANT_EMAIL_KEY_def PARTICIPANT_ASSIGNMENT_EXCLUSIONS_KEY_def
     ADMINISTRATOR_EMAIL_KEY_def ADMINISTRATOR_EMAIL_PASSWORD_KEY_def)

lemma take_alloc: "alloc h ob = (a, h') \<Longrightarrow> n \<le> length h \<Longrightarrow> take n h' = take n h"
  by (auto simp: alloc_def)

lemma assign_loop_heap_frame:
  "assign_loop_heap h pdv todo ra aa s = Inr (v, h', s') \<Longrightarrow>
     n \<le> ra \<Longrightarrow> n \<le> aa \<Longrightarrow> n \<le> length h \<Longrightarrow> take n h' = take n h \<and> length h \<le> length h'"
proof (induction todo arbitrary: h s)
  case Nil
  then show ?case by simp
next
  case (Cons g todo)
  from Cons.prems(1) obtain p ev rem ex where
    g1: "getitem h pdv g = Inr p" and g2: "getitem h p PARTICIPANT_ASSIGNMENT_EXCLUSIONS_KEY = Inr ev"
    and g3: "set_value h (Ref ra) = Inr rem" and g4: "set_value h ev = Inr ex"
    by (auto split: sum.splits)
  let ?h1 = "h @ [SetObject (rem - ex)]"
  show ?case
  proof (cases "rem - ex = {}")
    case True
    with Cons.prems g1 g2 g3 g4 show ?thesis by (auto simp: alloc_def)
  next
    case False
    from Cons.prems(1) g1 g2 g3 g4 False obtain r s1 where
      ch: "choice (tuple_of (rem - ex)) s = Inr (r, s1)"
      by (cases "choice (tuple_of (rem - ex)) s") (auto simp: alloc_def)
    from Cons.prems(1) g1 g2 g3 g4 False ch have rin: "r \<in> rem"
      by (simp add: alloc_def split: if_splits)
    from Cons.prems(1) g1 g2 g3 g4 False ch rin obtain kvs where
      d: "deref (?h1[ra := SetObject (rem - {r})]) aa = Some (DictObject kvs)"
      and rec: "assign_loop_heap
                  ((?h1[ra := SetObject (rem - {r})])[aa := DictObject (AList.update g (Str r) kvs)])
                  pdv todo ra aa s1 = Inr (v, h', s')"
      by (simp add: alloc_def Let_def split: option.splits py_object.splits)
    let ?h3 = "(?h1[ra := SetObject (rem - {r})])[aa := DictObject (AList.update g (Str r) kvs)]"
    from Cons.IH[OF rec Cons.prems(2,3)] Cons.prems(4)
    have "take n h' = take n ?h3 \<and> length ?h3 \<le> length h'" by simp
    moreover have "take n ?h3 = take n h" using Cons.prems(2,3,4) by simp
    ultimately show ?thesis by simp
  qed
qed

lemma get_assignments_heap_frame:
  assumes "get_assignments_heap h c s = Inr (v, h', s')"
  shows "take (length h) h' = h"
proof -
  from assms obtain pdv keys where
    g1: "getitem h c PARTICIPANTS_KEY = Inr pdv" and g2: "dict_keys h pdv = Inr keys"
    unfolding get_assignments_heap_def by (auto split: sum.splits)
  obtain order s1 where sh: "shuffle keys s = (order, s1)" by (cases "shuffle keys s")
  let ?h4 = "((h @ [ListObject keys])[length h := ListObject order] @ [SetObject (set keys)]) @ [DictObject []]"
  from assms g1 g2 sh have run:
    "assign_loop_heap ?h4 pdv order (Suc (length h)) (Suc (Suc (length h))) s1 = Inr (v, h', s')"
    unfolding get_assignments_heap_def by (simp add: alloc_def Let_def)
  from assign_loop_heap_frame[OF run, of "length h"]
  have "take (length h) h' = take (length h) ?h4" by simp
  then show ?thesis by simp
qed

lemma deref_prefix:
  assumes "take (length h0) h = h0" and "deref h0 a = Some ob"
  shows "deref h a = Some ob"
proof -
  from assms(2) have a: "a < length h0" and ob: "h0 ! a = ob"
    by (auto simp: deref_def split: if_splits)
  have "length (take (length h0) h) = length h0" using assms(1) by simp
  then have "length h0 \<le> length h" by simp
  moreover from a have "take (length h0) h ! a = h ! a" by simp
  ultimately show ?thesis using a ob assms(1) by (simp add: deref_def)
qed

lemma read_participant_prefix:
  assumes "take (length h0) h = h0" and "read_participant h0 v = Some p"
  shows "read_participant h v = Some p"
proof -
  from assms(2) obtain a kvs n e x ex where v: "v = Ref a"
    and d: "deref h0 a = Some (DictObject kvs)"
    and n: "read_str (map_of kvs PARTICIPANT_NAME_KEY) = Some n"
    and e: "read_str (map_of kvs PARTICIPANT_EMAIL_KEY) = Some e"
    and x: "map_of kvs PARTICIPANT_ASSIGNMENT_EXCLUSIONS_KEY = Some (Ref x)"
    and dx: "deref h0 x = Some (SetObject ex)"
    and p: "p = \<lparr>name = n, email = e, exclusion_ids = ex\<rparr>"
    unfolding read_participant_def
    by (auto split: py_value.splits option.splits py_object.splits)
  from deref_prefix[OF assms(1) d] deref_prefix[OF assms(1) dx] v n e x p
  show ?thesis by (simp add: read_participant_def)
qed

lemma read_participant_exclusions:
  assumes "read_participant h v = Some p"
  shows "\<exists>x. getitem h v PARTICIPANT_ASSIGNMENT_EXCLUSIONS_KEY = Inr (Ref x)
     \<and> set_value h (Ref x) = Inr (exclusion_ids p)"
  using assms unfolding read_participant_def getitem_def set_value_def
  by (auto split: py_value.splits option.splits py_object.splits)

lemma read_entries_prefix:
  "take (length h0) h = h0 \<Longrightarrow> read_entries h0 kvs = Some pd \<Longrightarrow> read_entries h kvs = Some pd"
proof (induction kvs arbitrary: pd)
  case Nil
  then show ?case by simp
next
  case (Cons kv kvs)
  obtain k v where kv: "kv = (k, v)" by (cases kv)
  from Cons.prems(2) kv obtain p rest where p: "read_participant h0 v = Some p"
    and r: "read_entries h0 kvs = Some rest" and pd: "pd = (k, p) # rest"
    by (auto split: option.splits)
  from read_participant_prefix[OF Cons.prems(1) p] Cons.IH[OF Cons.prems(1) r] kv pd
  show ?case by simp
qed

lemma read_entries_keys: "read_entries h kvs = Some pd \<Longrightarrow> map fst pd = map fst kvs"
proof (induction kvs arbitrary: pd)
  case Nil
  then show ?case by simp
next
  case (Cons kv kvs)
  then show ?case by (cases kv) (auto split: option.splits)
qed

lemma read_entries_lookup:
  "read_entries h kvs = Some pd \<Longrightarrow>
     map_of pd g = (case map_of kvs g of None \<Rightarrow> None | Some v \<Rightarrow> read_participant h v)"
proof (induction kvs arbitrary: pd)
  case Nil
  then show ?case by simp
next
  case (Cons kv kvs)
  then show ?case by (cases kv) (auto split: option.splits)
qed

lemma encode_update: "encode (AList.update g r a) = AList.update g (Str r) (encode a)"
  by (induction a) (auto simp: encode_def)

lemma assign_loop_heap_refines:
  assumes "read_entries h0 pkvs = Some pd" and "deref h0 pa = Some (DictObject pkvs)"
    and "length h0 \<le> ra" and "length h0 \<le> aa" and "ra \<noteq> aa"
  shows "take (length h0) h = h0 \<Longrightarrow> deref h ra = Some (SetObject rem) \<Longrightarrow>
     deref h aa = Some (DictObject (encode asg)) \<Longrightarrow>
     result_matches (assign_loop pd todo rem asg s) (assign_loop_heap h (Ref pa) todo ra aa s)"
proof (induction todo arbitrary: h rem asg s)
  case Nil
  then show ?case by (simp add: result_matches_def)
next
  case (Cons g todo)
  from deref_prefix[OF Cons.prems(1) assms(2)] have dpa: "deref h pa = Some (DictObject pkvs)" .
  note lk = read_entries_lookup[OF assms(1), of g]
  show ?case
  proof (cases "map_of pd g")
    case None
    then have "g \<notin> fst ` set pd" by (simp add: map_of_eq_None_iff)
    moreover have "fst ` set pd = fst ` set pkvs"
      using read_entries_keys[OF assms(1)] by (metis set_map)
    ultimately have "map_of pkvs g = None" by (simp add: map_of_eq_None_iff)
    with dpa None show ?thesis by (simp add: result_matches_def getitem_def)
  next
    case (Some p)
    with lk obtain v where mv: "map_of pkvs g = Some v" and rp0: "read_participant h0 v = Some p"
      by (auto split: option.splits)
    from read_participant_prefix[OF Cons.prems(1) rp0] have rp: "read_participant h v = Some p" .
    from read_participant_exclusions[OF rp] obtain x where
      gx: "getitem h v PARTICIPANT_ASSIGNMENT_EXCLUSIONS_KEY = Inr (Ref x)"
      and sx: "set_value h (Ref x) = Inr (exclusion_ids p)" by blast
    from dpa mv have g1: "getitem h (Ref pa) g = Inr v" by (simp add: getitem_def)
    from Cons.prems(2) have sr: "set_value h (Ref ra) = Inr rem" by (simp add: set_value_def)
    let ?av = "rem - exclusion_ids p"
    show ?thesis
    proof (cases "?av = {}")
      case True
      with Some g1 gx sx sr show ?thesis by (simp add: result_matches_def alloc_def)
    next
      case False
      show ?thesis
      proof (cases "choice (tuple_of ?av) s")
        case (Inl e)
        with Some g1 gx sx sr False show ?thesis by (simp add: result_matches_def alloc_def)
      next
        case (Inr rs)
        obtain r s1 where rs: "rs = (r, s1)" by (cases rs)
        show ?thesis
        proof (cases "r \<in> rem")
          case False
          with Some g1 gx sx sr \<open>?av \<noteq> {}\<close> Inr rs show ?thesis
            by (simp add: result_matches_def alloc_def)
        next
          case True
          from Cons.prems(2) have ral: "ra < length h" by (simp add: deref_def split: if_splits)
          from Cons.prems(3) have aal: "aa < length h" by (simp add: deref_def split: if_splits)
          let ?h2 = "(h @ [SetObject ?av])[ra := SetObject (rem - {r})]"
          let ?h3 = "?h2[aa := DictObject (AList.update g (Str r) (encode asg))]"
          have d2: "deref ?h2 aa = Some (DictObject (encode asg))"
            using Cons.prems(3) aal assms(5) by (simp add: deref_def nth_append)
          have p1: "take (length h0) ?h3 = h0"
            using Cons.prems(1) assms(3,4) ral by simp
          have p2: "deref ?h3 ra = Some (SetObject (rem - {r}))"
            using ral assms(5) by (simp add: deref_def)
          have p3: "deref ?h3 aa = Some (DictObject (encode (AList.update g r asg)))"
            using aal by (simp add: deref_def encode_update)
          from Cons.IH[OF p1 p2 p3]
          have "result_matches (assign_loop pd todo (rem - {r}) (AList.update g r asg) s1)
                  (assign_loop_heap ?h3 (Ref pa) todo ra aa s1)" .
          with Some g1 gx sx sr \<open>?av \<noteq> {}\<close> Inr rs True d2 show ?thesis
            by (simp add: alloc_def Let_def)
        qed
      qed
    qed
  qed
qed

lemma read_participants_prefix:
  assumes "take (length h0) h = h0" and "read_participants h0 v = Some pd"
  shows "read_participants h v = Some pd"
proof -
  from assms(2) obtain a kvs where v: "v = Ref a" and d: "deref h0 a = Some (DictObject kvs)"
    and r: "read_entries h0 kvs = Some pd"
    unfolding read_participants_def
    by (auto split: py_value.splits option.splits py_object.splits)
  from deref_prefix[OF assms(1) d] read_entries_prefix[OF assms(1) r] v
  show ?thesis by (simp add: read_participants_def)
qed

lemma read_config_prefix:
  assumes "take (length h0) h = h0" and "read_config h0 c = Some cfg"
  shows "read_config h c = Some cfg"
proof -
  from assms(2) obtain a kvs where c: "c = Ref a" and d: "deref h0 a = Some (DictObject kvs)"
    unfolding read_config_def
    by (auto split: py_value.splits option.splits py_object.splits)
  note d' = deref_prefix[OF assms(1) d]
  show ?thesis
  proof (cases "map_of kvs PARTICIPANTS_KEY")
    case None
    with assms(2) c d d' show ?thesis by (simp add: read_config_def)
  next
    case (Some pv)
    with assms(2) c d obtain pd where r: "read_participants h0 pv = Some pd"
      by (auto simp: read_config_def split: option.splits)
    from read_participants_prefix[OF assms(1) r] assms(2) c d d' Some r
    show ?thesis by (simp add: read_config_def)
  qed
qed

lemma get_assignments_heap_refines:
  assumes "read_config h c = Some cfg"
  shows "result_matches (get_assignments cfg s) (get_assignments_heap h c s)"
proof -
  from assms obtain a kvs where c: "c = Ref a" and d: "deref h a = Some (DictObject kvs)"
    unfolding read_config_def
    by (auto split: py_value.splits option.splits py_object.splits)
  show ?thesis
  proof (cases "map_of kvs PARTICIPANTS_KEY")
    case None
    with assms c d have "participants cfg = None" by (auto simp: read_config_def)
    with None c d show ?thesis
      by (simp add: result_matches_def get_assignments_def get_assignments_heap_def getitem_def)
  next
    case (Some pv)
    with assms c d obtain pd where r: "read_participants h pv = Some pd"
      and pc: "participants cfg = Some pd"
      by (auto simp: read_config_def split: option.splits)
    from r obtain pa pkvs where pv: "pv = Ref pa" and dp: "deref h pa = Some (DictObject pkvs)"
      and re: "read_entries h pkvs = Some pd"
      unfolding read_participants_def
      by (auto split: py_value.splits option.splits py_object.splits)
    from read_entries_keys[OF re] have keys: "map fst pkvs = map fst pd" by simp
    obtain order s1 where sh: "shuffle (map fst pd) s = (order, s1)"
      by (cases "shuffle (map fst pd) s")
    let ?n = "length h"
    let ?h4 = "((h @ [ListObject (map fst pd)])[?n := ListObject order]
                 @ [SetObject (set (map fst pd))]) @ [DictObject []]"
    have hp: "get_assignments_heap h c s
        = assign_loop_heap ?h4 (Ref pa) order (Suc ?n) (Suc (Suc ?n)) s1"
      using c d Some pv dp keys sh
      by (simp add: get_assignments_heap_def getitem_def dict_keys_def alloc_def Let_def)
    have pu: "get_assignments cfg s = assign_loop pd order (set (map fst pd)) [] s1"
      using pc sh by (simp add: get_assignments_def)
    have "result_matches (assign_loop pd order (set (map fst pd)) [] s1)
            (assign_loop_heap ?h4 (Ref pa) order (Suc ?n) (Suc (Suc ?n)) s1)"
    proof (rule assign_loop_heap_refines[OF re dp])
      show "take ?n ?h4 = h" by simp
      show "deref ?h4 (Suc ?n) = Some (SetObject (set (map fst pd)))"
        by (simp add: deref_def nth_append)
      show "deref ?h4 (Suc (Suc ?n)) = Some (DictObject (encode []))"
        by (simp add: deref_def nth_append encode_def)
    qed simp_all
    with hp pu show ?thesis by simp
  qed
qed

text \<open>
  C7. A call of \<open>get_assignments\<close> on a store that holds a configuration with a
  participant table returns (a dictionary or \<open>None\<close>) and changes no object that
  existed before the call: the store afterwards begins with the store before, so the
  configuration read from it, with every participant's id, name, email and exclusion
  set, is the same. What the call returns is what \<open>get_assignments\<close> computes on that
  configuration.
\<close>

theorem get_assignments_leaves_registry:
  assumes "read_config h c = Some cfg" and "participants cfg = Some pd"
  shows "\<exists>v h' s' a. get_assignments_heap h c s = Inr (v, h', s')
     \<and> take (length h) h' = h \<and> read_config h' c = Some cfg
     \<and> get_assignments cfg s = Inr (a, s')
     \<and> result_matches (Inr (a, s')) (Inr (v, h', s'))"
proof -
  from get_assignments_total[OF assms(2), of s] obtain a s' where
    pu: "get_assignments cfg s = Inr (a, s')" by blast
  from get_assignments_heap_refines[OF assms(1), of s] pu
  have rm: "result_matches (Inr (a, s')) (get_assignments_heap h c s)" by simp
  then obtain v h' where hp: "get_assignments_heap h c s = Inr (v, h', s')"
    by (cases a) (auto simp: result_matches_def)
  from get_assignments_heap_frame[OF hp] have fr: "take (length h) h' = h" .
  from read_config_prefix[OF fr assms(1)] have "read_config h' c = Some cfg" .
  with hp fr pu rm show ?thesis by auto
qed

theorem get_assignments_leaves_registry_witness:
  "read_config example_heap (Ref 7) = Some example_config
   \<and> participants example_config = Some example_participants
   \<and> (\<exists>v h' s' a. get_assignments_heap example_heap (Ref 7) (sconst 0) = Inr (v, h', s')
     \<and> take (length example_heap) h' = example_heap
     \<and> read_config h' (Ref 7) = Some example_config
     \<and> get_assignments example_config (sconst 0) = Inr (a, s')
     \<and> result_matches (Inr (a, s')) (Inr (v, h', s')))"
proof -
  note h1 = ex_read
  have h2: "participants example_config = Some example_participants"
    by (simp add: example_config_def)
  from get_assignments_leaves_registry[OF h1 h2, of "sconst 0"] h1 h2 show ?thesis by simp
qed

subsection \<open>The shuffle and the choice, draw by draw\<close>








subsection \<open>The attempts of the code are the greedy attempts of the specification\<close>













end
